theory Spec2Isabelle
  imports Complex_Main "HOL-Library.Word" "HOL-Library.Char_ord" "HOL-Library.List_Lexorder"
    "HOL-Library.Product_Lexorder"
begin

unbundle bit_operations_syntax

section \<open>Data model\<close>

text \<open>
  The controllers keep three tables behind the repository client: \<open>nodes\<close>,
  \<open>public_links\<close> and \<open>stars\<close>. A table is the list of its rows, in the order the
  repository stores them. Identifiers arrive as strings (route parameters and JSON body
  fields); an instant (\<open>new Date().toISOString()\<close>) is a natural number that grows with
  time.
\<close>

type_synonym ident = string
type_synonym instant = nat

record node =
  nid :: ident
  owner_id :: ident
  ntype :: string
  name :: string
  parent_id :: "ident option"
  size_bytes :: "nat option"
  mime_type :: "string option"
  path :: "string option"
  created_at :: instant
  updated_at :: instant
  deleted_at :: "instant option"
  shared_with :: "ident option"


record star =
  star_id :: ident
  user_id :: ident
  file_id :: ident

datatype error =
    UNAUTHORIZED | VALIDATION_ERROR | FILE_NOT_FOUND | FOLDER_NOT_FOUND
  | TARGET_FOLDER_NOT_FOUND | INVALID_NODE_TYPE | INVALID_TARGET | INVALID_MOVE
  | ACCESS_DENIED | ALREADY_DELETED | DB_QUERY_FAILED | DB_UPDATE_FAILED
  | DB_INSERT_FAILED | DB_DELETE_FAILED | DB_FETCH_FAILED | LINK_NOT_FOUND
  | RESOURCE_NOT_FOUND | RANGE_ERROR

text \<open>
  A handler either throws an \<open>ApiError\<close> (status code and error code, \<open>Inl\<close>) or sends
  an \<open>ApiResponse\<close> (status code and data, \<open>Inr\<close>).
\<close>

type_synonym 'a result = "(nat \<times> error) + (nat \<times> 'a)"

section \<open>JavaScript values and the repository client\<close>

text \<open>An optional string is truthy when it is present and not empty.\<close>

fun truthy :: "string option \<Rightarrow> bool" where
  "truthy None = False"
| "truthy (Some s) = (s \<noteq> [])"

text \<open>\<open>a || b\<close> on optional strings.\<close>

definition or_else :: "string option \<Rightarrow> string option \<Rightarrow> string option" where
  "or_else a b = (if truthy a then a else b)"

definition is_space :: "char \<Rightarrow> bool" where
  "is_space c = (c \<in> set [CHR 0x09, CHR 0x0A, CHR 0x0B, CHR 0x0C, CHR 0x0D, CHR 0x20])"

text \<open>\<open>s.trim()\<close>: white space removed at both ends.\<close>

definition trim :: "string \<Rightarrow> string" where
  "trim s = rev (dropWhile is_space (rev (dropWhile is_space s)))"

text \<open>
  \<open>.single()\<close> yields the row when the query selects exactly one row, and an error with
  \<open>data = null\<close> otherwise.
\<close>

fun single :: "'a list \<Rightarrow> 'a option" where
  "single [r] = Some r"
| "single _ = None"

text \<open>
  Every repository call can also come back with an error of its own (connection,
  constraint, policy). A handler takes \<open>fault :: nat \<Rightarrow> bool\<close>: its \<open>k\<close>-th repository
  call, in the order of the source text, fails when \<open>fault k\<close> holds, and then reads
  nothing and writes nothing.
\<close>

definition node_by_id :: "bool \<Rightarrow> ident \<Rightarrow> node list \<Rightarrow> node option" where
  "node_by_id failed i nodes =
     (if failed then None else single (filter (\<lambda>n. nid n = i) nodes))"

text \<open>
  \<open>insert\<close> on \<open>nodes\<close>: the repository assigns the id (the primary key, so it is
  refused when a row already carries it), and the columns the statement does not name
  take their defaults.
\<close>

definition insert_node :: "bool \<Rightarrow> node \<Rightarrow> node list \<Rightarrow> node list option" where
  "insert_node failed row nodes =
     (if failed \<or> nid row \<in> nid ` set nodes then None else Some (nodes @ [row]))"

section \<open>File management controller\<close>

subsection \<open>copyFile\<close>

definition copyFile ::
  "(nat \<Rightarrow> bool) \<Rightarrow> ident \<Rightarrow> instant \<Rightarrow> ident option \<Rightarrow> ident \<Rightarrow> ident option
     \<Rightarrow> node list \<Rightarrow> node result \<times> node list" where
  "copyFile fault new_id now userId i parent nodes =
     (if \<not> truthy userId then (Inl (401, UNAUTHORIZED), nodes)
      else case node_by_id (fault 1) i nodes of
        None \<Rightarrow> (Inl (404, FILE_NOT_FOUND), nodes)
      | Some file \<Rightarrow>
          if ntype file \<noteq> ''file'' then (Inl (400, INVALID_NODE_TYPE), nodes)
          else if Some (owner_id file) \<noteq> userId then (Inl (403, ACCESS_DENIED), nodes)
          else
            let copyName = name file @ ''_copy'';
                row = \<lparr> nid = new_id, owner_id = the userId, ntype = ''file'',
                        name = copyName, parent_id = or_else parent (parent_id file),
                        size_bytes = size_bytes file, mime_type = mime_type file,
                        path = path file, created_at = now, updated_at = now,
                        deleted_at = None, shared_with = None \<rparr>
            in case insert_node (fault 2) row nodes of
                 None \<Rightarrow> (Inl (500, DB_INSERT_FAILED), nodes)
               | Some nodes' \<Rightarrow> (Inr (201, row), nodes'))"

subsection \<open>createFolder\<close>

definition createFolder ::
  "(nat \<Rightarrow> bool) \<Rightarrow> ident \<Rightarrow> instant \<Rightarrow> ident option \<Rightarrow> string option \<Rightarrow> ident option
     \<Rightarrow> node list \<Rightarrow> node result \<times> node list" where
  "createFolder fault new_id now userId nm parent nodes =
     (if \<not> truthy userId then (Inl (401, UNAUTHORIZED), nodes)
      else if \<not> truthy nm \<or> trim (the nm) = [] then (Inl (422, VALIDATION_ERROR), nodes)
      else
        let row = \<lparr> nid = new_id, owner_id = the userId, ntype = ''folder'',
                    name = trim (the nm), parent_id = or_else parent None,
                    size_bytes = None, mime_type = None, path = None,
                    created_at = now, updated_at = now,
                    deleted_at = None, shared_with = None \<rparr>
        in case insert_node (fault 1) row nodes of
             None \<Rightarrow> (Inl (500, DB_INSERT_FAILED), nodes)
           | Some nodes' \<Rightarrow> (Inr (201, row), nodes'))"

subsection \<open>softDeleteFolder\<close>

text \<open>\<open>update({deleted_at}).eq("id", id)\<close>\<close>

definition stamp_by_id :: "ident \<Rightarrow> instant \<Rightarrow> node list \<Rightarrow> node list" where
  "stamp_by_id i t nodes =
     map (\<lambda>n. if nid n = i then n\<lparr>deleted_at := Some t\<rparr> else n) nodes"

text \<open>\<open>update({deleted_at}).eq("owner_id", userId).eq("parent_id", id).is("deleted_at", null)\<close>\<close>

definition stamp_children :: "ident \<Rightarrow> ident \<Rightarrow> instant \<Rightarrow> node list \<Rightarrow> node list" where
  "stamp_children u i t nodes =
     map (\<lambda>n. if owner_id n = u \<and> parent_id n = Some i \<and> deleted_at n = None
               then n\<lparr>deleted_at := Some t\<rparr> else n) nodes"

definition softDeleteFolder ::
  "(nat \<Rightarrow> bool) \<Rightarrow> instant \<Rightarrow> ident option \<Rightarrow> ident
     \<Rightarrow> node list \<Rightarrow> (ident \<times> instant) result \<times> node list" where
  "softDeleteFolder fault now userId i nodes =
     (if \<not> truthy userId then (Inl (401, UNAUTHORIZED), nodes)
      else case node_by_id (fault 1) i nodes of
        None \<Rightarrow> (Inl (404, FOLDER_NOT_FOUND), nodes)
      | Some folder \<Rightarrow>
          if ntype folder \<noteq> ''folder'' then (Inl (400, INVALID_NODE_TYPE), nodes)
          else if Some (owner_id folder) \<noteq> userId then (Inl (403, ACCESS_DENIED), nodes)
          else if deleted_at folder \<noteq> None then (Inl (400, ALREADY_DELETED), nodes)
          else
            let deletedAt = now in
            if fault 2 then (Inl (500, DB_UPDATE_FAILED), nodes)
            else
              let nodes1 = stamp_by_id i deletedAt nodes in
              if fault 3 then (Inl (500, DB_UPDATE_FAILED), nodes1)
              else (Inr (200, (i, deletedAt)),
                    stamp_children (the userId) i deletedAt nodes1))"

subsection \<open>moveFile and moveFolder\<close>

text \<open>\<open>update({parent_id, updated_at}).eq("id", id)\<close>\<close>

definition set_parent :: "ident \<Rightarrow> ident option \<Rightarrow> instant \<Rightarrow> node list \<Rightarrow> node list" where
  "set_parent i p t nodes =
     map (\<lambda>n. if nid n = i then n\<lparr>parent_id := p, updated_at := t\<rparr> else n) nodes"

definition moveFile ::
  "(nat \<Rightarrow> bool) \<Rightarrow> instant \<Rightarrow> ident option \<Rightarrow> ident \<Rightarrow> ident option
     \<Rightarrow> node list \<Rightarrow> node result \<times> node list" where
  "moveFile fault now userId i target_folder_id nodes =
     (if \<not> truthy userId then (Inl (401, UNAUTHORIZED), nodes)
      else if \<not> truthy target_folder_id then (Inl (422, VALIDATION_ERROR), nodes)
      else case node_by_id (fault 1) i nodes of
        None \<Rightarrow> (Inl (404, FILE_NOT_FOUND), nodes)
      | Some file \<Rightarrow>
          if ntype file \<noteq> ''file'' then (Inl (400, INVALID_NODE_TYPE), nodes)
          else if Some (owner_id file) \<noteq> userId then (Inl (403, ACCESS_DENIED), nodes)
          else case node_by_id (fault 2) (the target_folder_id) nodes of
            None \<Rightarrow> (Inl (404, FOLDER_NOT_FOUND), nodes)
          | Some folder \<Rightarrow>
              if ntype folder \<noteq> ''folder'' then (Inl (400, INVALID_TARGET), nodes)
              else if Some (owner_id folder) \<noteq> userId then (Inl (403, ACCESS_DENIED), nodes)
              else if fault 3 then (Inl (500, DB_UPDATE_FAILED), nodes)
              else
                let nodes' = set_parent i target_folder_id now nodes in
                case single (filter (\<lambda>n. nid n = i) nodes') of
                  None \<Rightarrow> (Inl (500, DB_UPDATE_FAILED), nodes')
                | Some movedFile \<Rightarrow> (Inr (200, movedFile), nodes'))"

text \<open>
  The closure \<open>checkCircular\<close> of \<open>moveFolder\<close>: a loop over \<open>childNodes\<close> that calls
  itself on every node whose parent is \<open>folderId\<close>. The third argument is the part of
  \<open>childNodes\<close> the loop has still to visit; the first bounds the depth of the calls:
  \<open>None\<close> is a recursion that went deeper than the bound, which the program ends with
  a \<open>RangeError\<close> (stack overflow).
\<close>

fun checkCircular :: "nat \<Rightarrow> node list \<Rightarrow> node list \<Rightarrow> ident \<Rightarrow> ident \<Rightarrow> bool option" where
  "checkCircular 0 childNodes rest folderId targetId = None"
| "checkCircular (Suc d) childNodes [] folderId targetId = Some False"
| "checkCircular (Suc d) childNodes (n # rest) folderId targetId =
     (if parent_id n = Some folderId then
        if nid n = targetId then Some True
        else (case checkCircular d childNodes childNodes (nid n) targetId of
                None \<Rightarrow> None
              | Some True \<Rightarrow> Some True
              | Some False \<Rightarrow> checkCircular (Suc d) childNodes rest folderId targetId)
      else checkCircular (Suc d) childNodes rest folderId targetId)"

text \<open>
  \<open>moveFolder\<close> allows a depth of one more than the number of rows in \<open>childNodes\<close>.
  A result does not change when more depth is allowed (\<open>checkCircular_deeper\<close>), and
  over an acyclic parent relation that depth is always enough
  (\<open>checkCircular_returns\<close>).
\<close>

definition moveFolder ::
  "(nat \<Rightarrow> bool) \<Rightarrow> instant \<Rightarrow> ident option \<Rightarrow> ident \<Rightarrow> ident option
     \<Rightarrow> node list \<Rightarrow> node result \<times> node list" where
  "moveFolder fault now userId i target_folder_id nodes =
     (if \<not> truthy userId then (Inl (401, UNAUTHORIZED), nodes)
      else if \<not> truthy target_folder_id then (Inl (422, VALIDATION_ERROR), nodes)
      else case node_by_id (fault 1) i nodes of
        None \<Rightarrow> (Inl (404, FOLDER_NOT_FOUND), nodes)
      | Some folder \<Rightarrow>
          if ntype folder \<noteq> ''folder'' then (Inl (400, INVALID_NODE_TYPE), nodes)
          else if Some (owner_id folder) \<noteq> userId then (Inl (403, ACCESS_DENIED), nodes)
          else case node_by_id (fault 2) (the target_folder_id) nodes of
            None \<Rightarrow> (Inl (404, TARGET_FOLDER_NOT_FOUND), nodes)
          | Some targetFolder \<Rightarrow>
              if ntype targetFolder \<noteq> ''folder'' then (Inl (400, INVALID_TARGET), nodes)
              else if Some (owner_id targetFolder) \<noteq> userId
                then (Inl (403, ACCESS_DENIED), nodes)
              else if i = the target_folder_id then (Inl (400, INVALID_MOVE), nodes)
              else
                let childNodes =
                      (if fault 3 then None
                       else Some (filter (\<lambda>n. owner_id n = the userId) nodes));
                    circular =
                      (case childNodes of
                         None \<Rightarrow> Some False
                       | Some cs \<Rightarrow>
                           checkCircular (Suc (length cs)) cs cs i (the target_folder_id))
                in case circular of
                     None \<Rightarrow> (Inl (500, RANGE_ERROR), nodes)
                   | Some True \<Rightarrow> (Inl (400, INVALID_MOVE), nodes)
                   | Some False \<Rightarrow>
                       if fault 4 then (Inl (500, DB_UPDATE_FAILED), nodes)
                       else
                         let nodes' = set_parent i target_folder_id now nodes in
                         case single (filter (\<lambda>n. nid n = i) nodes') of
                           None \<Rightarrow> (Inl (500, DB_UPDATE_FAILED), nodes')
                         | Some movedFolder \<Rightarrow> (Inr (200, movedFolder), nodes'))"

subsection \<open>getFolderContents\<close>

text \<open>
  The listing asks the repository for \<open>order("type", ascending)\<close> and then
  \<open>order("name", ascending)\<close>. The \<open>type\<close> column holds the strings the controllers
  compare it with, \<open>"file"\<close> and \<open>"folder"\<close>; text is ordered character by character,
  and rows with equal keys stay in table order. An equality filter with \<open>null\<close> selects
  the rows whose column is null.
\<close>

definition getFolderContents ::
  "(nat \<Rightarrow> bool) \<Rightarrow> ident option \<Rightarrow> ident
     \<Rightarrow> node list \<Rightarrow> (ident option \<times> node list) result" where
  "getFolderContents fault userId i nodes =
     (if \<not> truthy userId then Inl (401, UNAUTHORIZED)
      else
        let parentId = (if i = ''root'' \<or> i = ''null'' then None else Some i);
            checked =
              (if truthy parentId then
                 (case node_by_id (fault 1) (the parentId) nodes of
                    None \<Rightarrow> Some (404, FOLDER_NOT_FOUND)
                  | Some folder \<Rightarrow>
                      if ntype folder \<noteq> ''folder'' then Some (400, INVALID_NODE_TYPE)
                      else if Some (owner_id folder) \<noteq> userId then Some (403, ACCESS_DENIED)
                      else None)
               else None)
        in case checked of
             Some e \<Rightarrow> Inl e
           | None \<Rightarrow>
               if fault 2 then Inl (500, DB_FETCH_FAILED)
               else
                 let contents =
                       sort_key (\<lambda>n. (ntype n, name n))
                         (filter (\<lambda>n. owner_id n = the userId \<and> parent_id n = parentId
                                       \<and> deleted_at n = None) nodes)
                 in Inr (200, (parentId, contents)))"

subsection \<open>listFiles\<close>








section \<open>Search controller\<close>

subsection \<open>searchNodes\<close>

definition lower_char :: "char \<Rightarrow> char" where
  "lower_char c =
     (if CHR ''A'' \<le> c \<and> c \<le> CHR ''Z'' then char_of (of_char c + (32::nat)) else c)"

text \<open>
  SQL \<open>LIKE\<close>: in the pattern \<open>%\<close> stands for any run of characters and \<open>_\<close> for any one
  character. \<open>ILIKE\<close> is \<open>LIKE\<close> without regard to letter case.
\<close>

fun like :: "string \<Rightarrow> string \<Rightarrow> bool" where
  "like [] [] = True"
| "like [] (c # cs) = False"
| "like (p # ps) [] = (p = CHR ''%'' \<and> like ps [])"
| "like (p # ps) (c # cs) =
     (if p = CHR ''%'' then like ps (c # cs) \<or> like (p # ps) cs
      else (p = CHR ''_'' \<or> p = c) \<and> like ps cs)"

definition ilike :: "string \<Rightarrow> string \<Rightarrow> bool" where
  "ilike pat s = like (map lower_char pat) (map lower_char s)"

text \<open>
  The query is
  \<open>.or("name.ilike.%q%,owner_id.eq.userId,shared_with.eq.userId").is("deleted_at", null)\<close>,
  then \<open>.eq("type", type)\<close> when \<open>type\<close> is one of the two node types, then
  \<open>.order("updated_at", descending)\<close>; the handler keeps the rows the requester owns.
\<close>

definition searchNodes ::
  "(nat \<Rightarrow> bool) \<Rightarrow> ident option \<Rightarrow> string option \<Rightarrow> string option
     \<Rightarrow> node list \<Rightarrow> node list result" where
  "searchNodes fault userId q type_param nodes =
     (if \<not> truthy userId then Inl (401, UNAUTHORIZED)
      else if \<not> truthy q \<or> trim (the q) = [] then Inl (422, VALIDATION_ERROR)
      else if fault 1 then Inl (500, DB_QUERY_FAILED)
      else
        let selected =
              filter (\<lambda>n. (ilike (''%'' @ the q @ ''%'') (name n)
                            \<or> owner_id n = the userId
                            \<or> shared_with n = userId)
                          \<and> deleted_at n = None
                          \<and> (if type_param = Some ''file'' \<or> type_param = Some ''folder''
                              then Some (ntype n) = type_param else True)) nodes;
            ordered = rev (sort_key updated_at selected);
            accessibleNodes = filter (\<lambda>node. owner_id node = the userId) ordered
        in Inr (200, accessibleNodes))"

subsection \<open>markFileAsStarred and removeFileFromStarred\<close>

datatype star_data = FileId ident | Starred star

definition star_of :: "bool \<Rightarrow> ident \<Rightarrow> ident \<Rightarrow> star list \<Rightarrow> star option" where
  "star_of failed u f stars =
     (if failed then None
      else single (filter (\<lambda>s. user_id s = u \<and> file_id s = f) stars))"

definition markFileAsStarred ::
  "(nat \<Rightarrow> bool) \<Rightarrow> ident \<Rightarrow> ident option \<Rightarrow> ident
     \<Rightarrow> node list \<Rightarrow> star list \<Rightarrow> star_data result \<times> star list" where
  "markFileAsStarred fault new_id userId fileId nodes stars =
     (if \<not> truthy userId then (Inl (401, UNAUTHORIZED), stars)
      else case node_by_id (fault 1) fileId nodes of
        None \<Rightarrow> (Inl (404, FILE_NOT_FOUND), stars)
      | Some file \<Rightarrow>
          if deleted_at file \<noteq> None then (Inl (404, FILE_NOT_FOUND), stars)
          else if ntype file \<noteq> ''file'' then (Inl (400, INVALID_NODE_TYPE), stars)
          else case star_of (fault 2) (the userId) fileId stars of
            Some existingStar \<Rightarrow> (Inr (200, FileId fileId), stars)
          | None \<Rightarrow>
              let row = \<lparr> star_id = new_id, user_id = the userId, file_id = fileId \<rparr>
              in if fault 3 \<or> new_id \<in> star_id ` set stars
                 then (Inl (500, DB_INSERT_FAILED), stars)
                 else (Inr (201, Starred row), stars @ [row]))"

definition removeFileFromStarred ::
  "(nat \<Rightarrow> bool) \<Rightarrow> ident option \<Rightarrow> ident
     \<Rightarrow> node list \<Rightarrow> star list \<Rightarrow> star_data result \<times> star list" where
  "removeFileFromStarred fault userId fileId nodes stars =
     (if \<not> truthy userId then (Inl (401, UNAUTHORIZED), stars)
      else case node_by_id (fault 1) fileId nodes of
        None \<Rightarrow> (Inl (404, FILE_NOT_FOUND), stars)
      | Some file \<Rightarrow>
          if deleted_at file \<noteq> None then (Inl (404, FILE_NOT_FOUND), stars)
          else if ntype file \<noteq> ''file'' then (Inl (400, INVALID_NODE_TYPE), stars)
          else case star_of (fault 2) (the userId) fileId stars of
            None \<Rightarrow> (Inr (200, FileId fileId), stars)
          | Some existingStar \<Rightarrow>
              if fault 3 then (Inl (500, DB_DELETE_FAILED), stars)
              else (Inr (200, FileId fileId),
                    filter (\<lambda>s. star_id s \<noteq> star_id existingStar) stars))"

section \<open>Sharing controller\<close>

subsection \<open>generatePublicLink\<close>







subsection \<open>accessPublicResource\<close>



section \<open>Reading replies, and the states of the examples\<close>

definition reply_of :: "'a result \<Rightarrow> 'a option" where
  "reply_of r = (case r of Inl e \<Rightarrow> None | Inr (code, d) \<Rightarrow> Some d)"

definition failure_of :: "'a result \<Rightarrow> error option" where
  "failure_of r = (case r of Inl (code, e) \<Rightarrow> Some e | Inr d \<Rightarrow> None)"

text \<open>
  The node invariant of the data model: a parent reference, when present, names an
  existing folder of the same owner.
\<close>

definition parent_ok :: "node list \<Rightarrow> node \<Rightarrow> bool" where
  "parent_ok nodes n =
     (case parent_id n of
        None \<Rightarrow> True
      | Some p \<Rightarrow> list_ex (\<lambda>m. nid m = p \<and> ntype m = ''folder'' \<and> owner_id m = owner_id n) nodes)"

definition mk_node :: "ident \<Rightarrow> ident \<Rightarrow> string \<Rightarrow> string \<Rightarrow> ident option \<Rightarrow> node" where
  "mk_node i u t nm p =
     \<lparr> nid = i, owner_id = u, ntype = t, name = nm, parent_id = p,
       size_bytes = None, mime_type = None, path = None, created_at = 0, updated_at = 0,
       deleted_at = None, shared_with = None \<rparr>"

definition no_fault :: "nat \<Rightarrow> bool" where
  "no_fault k = False"

text \<open>A folder \<open>F\<close> of account \<open>u\<close> holding a stored file.\<close>

definition report_file :: node where
  "report_file = (mk_node ''f1'' ''u'' ''file'' ''report'' (Some ''F''))
     \<lparr> size_bytes := Some 42, mime_type := Some ''text/plain'', path := Some ''u/report'' \<rparr>"

definition small_drive :: "node list" where
  "small_drive = [mk_node ''F'' ''u'' ''folder'' ''docs'' None, report_file]"

text \<open>A folder \<open>F\<close> holding a folder \<open>A\<close> that holds the file \<open>B\<close>.\<close>

definition nested_drive :: "node list" where
  "nested_drive =
     [mk_node ''F'' ''u'' ''folder'' ''top'' None,
      mk_node ''A'' ''u'' ''folder'' ''sub'' (Some ''F''),
      mk_node ''B'' ''u'' ''file'' ''deep'' (Some ''A'')]"

text \<open>A folder \<open>P\<close> that holds one folder and one file.\<close>

definition listing_drive :: "node list" where
  "listing_drive =
     [mk_node ''P'' ''u'' ''folder'' ''parent'' None,
      mk_node ''1'' ''u'' ''folder'' ''a'' (Some ''P''),
      mk_node ''2'' ''u'' ''file'' ''b'' (Some ''P'')]"





section \<open>The hierarchy as a whole\<close>

text \<open>
  The parent chain that starts at a reference: \<open>chain_ends k nodes r\<close> holds when
  following \<open>parent_id\<close> from \<open>r\<close> arrives at the null root after looking at most \<open>k\<close>
  nodes up. A reference to a node that does not exist ends the chain without arriving.
\<close>

fun chain_ends :: "nat \<Rightarrow> node list \<Rightarrow> ident option \<Rightarrow> bool" where
  "chain_ends k nodes None = True"
| "chain_ends 0 nodes (Some i) = False"
| "chain_ends (Suc k) nodes (Some i) =
     (case find (\<lambda>n. nid n = i) nodes of
        None \<Rightarrow> False
      | Some n \<Rightarrow> chain_ends k nodes (parent_id n))"

text \<open>Every node's chain arrives at the root within as many steps as there are nodes.\<close>

definition rooted :: "node list \<Rightarrow> bool" where
  "rooted nodes = list_all (\<lambda>n. chain_ends (length nodes) nodes (Some (nid n))) nodes"

text \<open>
  The state invariant of the data model: ids are unique, parent chains are finite and
  acyclic, and every parent reference names an existing folder of the same owner.
\<close>

definition well_formed :: "node list \<Rightarrow> bool" where
  "well_formed nodes =
     (distinct (map nid nodes) \<and> rooted nodes \<and> list_all (parent_ok nodes) nodes)"

text \<open>
  The child-to-parent edges of a table. A node \<open>t\<close> is a descendant of \<open>a\<close> when a path of
  such edges leads from \<open>t\<close> up to \<open>a\<close>.
\<close>

definition parent_rel :: "node list \<Rightarrow> (ident \<times> ident) set" where
  "parent_rel nodes = {(nid n, p) | n p. n \<in> set nodes \<and> parent_id n = Some p}"

definition descendant :: "node list \<Rightarrow> ident \<Rightarrow> ident \<Rightarrow> bool" where
  "descendant nodes t a = ((t, a) \<in> (parent_rel nodes)\<^sup>+)"

text \<open>Requests that create folders and move nodes, and runs of them.\<close>

datatype request =
    CreateFolder "nat \<Rightarrow> bool" ident instant "ident option" "string option" "ident option"
  | MoveFolder "nat \<Rightarrow> bool" instant "ident option" ident "ident option"
  | MoveFile "nat \<Rightarrow> bool" instant "ident option" ident "ident option"

fun perform :: "request \<Rightarrow> node list \<Rightarrow> node list" where
  "perform (CreateFolder fault new_id now userId nm parent) nodes =
     snd (createFolder fault new_id now userId nm parent nodes)"
| "perform (MoveFolder fault now userId i target) nodes =
     snd (moveFolder fault now userId i target nodes)"
| "perform (MoveFile fault now userId i target) nodes =
     snd (moveFile fault now userId i target nodes)"

fun run :: "request list \<Rightarrow> node list \<Rightarrow> node list" where
  "run [] nodes = nodes"
| "run (r # rs) nodes = run rs (perform r nodes)"

text \<open>
  What \<open>createFolder\<close> does not check and \<open>moveFolder\<close> relies on: a folder is created
  at the root or under an existing folder of its creator, and \<open>moveFolder\<close> gets the list
  of the actor's nodes.
\<close>

fun admissible :: "node list \<Rightarrow> request \<Rightarrow> bool" where
  "admissible nodes (CreateFolder fault new_id now userId nm parent) =
     (case or_else parent None of
        None \<Rightarrow> True
      | Some p \<Rightarrow> list_ex (\<lambda>m. nid m = p \<and> ntype m = ''folder''
                              \<and> Some (owner_id m) = userId) nodes)"
| "admissible nodes (MoveFolder fault now userId i target) = (\<not> fault 3)"
| "admissible nodes (MoveFile fault now userId i target) = True"

fun all_admissible :: "node list \<Rightarrow> request list \<Rightarrow> bool" where
  "all_admissible nodes [] = True"
| "all_admissible nodes (r # rs) =
     (admissible nodes r \<and> all_admissible (perform r nodes) rs)"

text \<open>
  Two accounts: \<open>u\<close> creates the folder \<open>1\<close>, \<open>v\<close> creates the folder \<open>2\<close> inside it, and
  \<open>u\<close> creates the folder \<open>3\<close> inside \<open>2\<close>.
\<close>

definition crossing_requests :: "request list" where
  "crossing_requests =
     [CreateFolder no_fault ''1'' 1 (Some ''u'') (Some ''top'') None,
      CreateFolder no_fault ''2'' 2 (Some ''v'') (Some ''mid'') (Some ''1''),
      CreateFolder no_fault ''3'' 3 (Some ''u'') (Some ''low'') (Some ''2'')]"

text \<open>
  One account: \<open>u\<close> creates \<open>C\<close> inside \<open>A\<close>, asks to move \<open>A\<close> into \<open>C\<close>, and moves \<open>C\<close>
  up into \<open>F\<close>.
\<close>

definition tidy_requests :: "request list" where
  "tidy_requests =
     [CreateFolder no_fault ''C'' 10 (Some ''u'') (Some ''new'') (Some ''A''),
      MoveFolder no_fault 11 (Some ''u'') ''A'' (Some ''C''),
      MoveFolder no_fault 12 (Some ''u'') ''C'' (Some ''F'')]"

section \<open>Properties\<close>


subsection \<open>Repository lookups\<close>

lemma filter_by_key:
  "distinct (map k rows) \<Longrightarrow> r \<in> set rows \<Longrightarrow> filter (\<lambda>x. k x = k r) rows = [r]"
proof (induction rows)
  case Nil
  then show ?case by simp
next
  case (Cons a rows)
  show ?case
  proof (cases "a = r")
    case True
    with Cons.prems have "k r \<notin> k ` set rows" by simp
    then have "\<forall>x \<in> set rows. k x \<noteq> k r" by (metis imageI)
    then have "filter (\<lambda>x. k x = k r) rows = []" by (simp add: filter_empty_conv)
    with True show ?thesis by simp
  next
    case False
    with Cons.prems have "r \<in> set rows" and "k a \<noteq> k r" by auto
    with Cons show ?thesis by simp
  qed
qed

lemma node_by_id_found:
  "distinct (map nid nodes) \<Longrightarrow> f \<in> set nodes \<Longrightarrow> node_by_id False (nid f) nodes = Some f"
  by (simp add: node_by_id_def filter_by_key)

lemma single_SomeD: "single rows = Some r \<Longrightarrow> rows = [r]"
  by (cases rows rule: single.cases) auto

lemma node_by_id_SomeD:
  "node_by_id failed i nodes = Some f \<Longrightarrow> \<not> failed \<and> f \<in> set nodes \<and> nid f = i"
proof -
  assume a: "node_by_id failed i nodes = Some f"
  then have nf: "\<not> failed" by (auto simp: node_by_id_def split: if_splits)
  with a have "filter (\<lambda>n. nid n = i) nodes = [f]"
    by (simp add: node_by_id_def single_SomeD)
  then have "f \<in> set (filter (\<lambda>n. nid n = i) nodes)" by simp
  with nf show ?thesis by simp
qed

subsection \<open>copyFile\<close>

lemma copyFile_success:
  assumes "node_by_id (fault 1) i nodes = Some f"
    and "ntype f = ''file''" and "owner_id f = u" and "u \<noteq> []"
    and "\<not> fault 2" and "new_id \<notin> nid ` set nodes"
  shows "copyFile fault new_id now (Some u) i parent nodes =
           (let c = \<lparr> nid = new_id, owner_id = u, ntype = ''file'',
                      name = name f @ ''_copy'', parent_id = or_else parent (parent_id f),
                      size_bytes = size_bytes f, mime_type = mime_type f,
                      path = path f, created_at = now, updated_at = now,
                      deleted_at = None, shared_with = None \<rparr>
            in (Inr (201, c), nodes @ [c]))"
  using assms by (simp add: copyFile_def insert_node_def Let_def)

text \<open>
  Claim C7. Let \<open>f\<close> be a FILE node of the actor \<open>u\<close> in a table with unique ids, and let
  the repository answer the lookup and accept the insert under an unused id. Then
  \<open>copyFile\<close> replies 201 with a new row \<open>c\<close> and the table afterwards is the old table,
  row for row, followed by \<open>c\<close> alone: the source \<open>f\<close> and every other row are as before
  and exactly one row is new. The copy has the new id, is a FILE of \<open>u\<close>, is named
  \<open>f\<close>'s name followed by \<open>_copy\<close>, and has \<open>f\<close>'s storage path, size and MIME type. Its
  parent is the supplied target, or \<open>f\<close>'s own parent when no target (or an empty one)
  is given.
\<close>

theorem copyFile_reference_copy:
  assumes "distinct (map nid nodes)" and "f \<in> set nodes"
    and "ntype f = ''file''" and "owner_id f = u" and "u \<noteq> []"
    and "\<not> fault 1" and "\<not> fault 2" and "new_id \<notin> nid ` set nodes"
  shows "\<exists>c. copyFile fault new_id now (Some u) (nid f) target nodes
                = (Inr (201, c), nodes @ [c])
             \<and> nid c = new_id \<and> nid c \<notin> nid ` set nodes
             \<and> ntype c = ''file'' \<and> owner_id c = u
             \<and> name c = name f @ ''_copy''
             \<and> path c = path f \<and> size_bytes c = size_bytes f \<and> mime_type c = mime_type f
             \<and> parent_id c = (case target of
                                None \<Rightarrow> parent_id f
                              | Some p \<Rightarrow> if p = [] then parent_id f else Some p)
             \<and> deleted_at c = None"
proof -
  from assms have "node_by_id (fault 1) (nid f) nodes = Some f"
    by (simp add: node_by_id_found)
  from copyFile_success [OF this assms(3,4,5,7,8)] assms(8)
  show ?thesis
    by (cases target) (simp_all add: Let_def or_else_def)
qed

theorem copyFile_reference_copy_witness:
  "copyFile no_fault ''c1'' 9 (Some ''u'') ''f1'' (Some ''G'') small_drive
     = (Inr (201, report_file \<lparr> nid := ''c1'', name := ''report_copy'',
                                parent_id := Some ''G'', created_at := 9, updated_at := 9 \<rparr>),
        small_drive @ [report_file \<lparr> nid := ''c1'', name := ''report_copy'',
                                parent_id := Some ''G'', created_at := 9, updated_at := 9 \<rparr>])"
proof -
  have d: "distinct (map nid small_drive)" and m: "report_file \<in> set small_drive"
    and t: "ntype report_file = ''file''" and o: "owner_id report_file = ''u''"
    and i: "nid report_file = ''f1''" and n: "''c1'' \<notin> nid ` set small_drive"
    by (simp_all add: small_drive_def report_file_def mk_node_def)
  have u: "''u'' \<noteq> []" by simp
  have f: "\<not> no_fault 1" "\<not> no_fault 2" by (simp_all add: no_fault_def)
  from copyFile_reference_copy [OF d m t o u f n, of 9 "Some ''G''"]
  obtain c where c: "copyFile no_fault ''c1'' 9 (Some ''u'') ''f1'' (Some ''G'') small_drive
                       = (Inr (201, c), small_drive @ [c])"
    by (auto simp: i)
  then have "c = report_file \<lparr> nid := ''c1'', name := ''report_copy'',
                   parent_id := Some ''G'', created_at := 9, updated_at := 9 \<rparr>"
    by (simp add: copyFile_def node_by_id_def insert_node_def small_drive_def report_file_def
        mk_node_def no_fault_def or_else_def Let_def)
  with c show ?thesis by simp
qed

text \<open>
  Claim C10, as stated, fails for a target that is not null but empty: \<open>copyFile\<close> takes
  the target through \<open>parent_id || file.parent_id\<close>, so the copy of \<open>report\<close> made with
  the target \<open>""\<close> is stored under \<open>F\<close>, the parent of the source.
\<close>

theorem copyFile_empty_target_counterexample:
  "map_option parent_id
     (reply_of (fst (copyFile no_fault ''c1'' 9 (Some ''u'') ''f1'' (Some '''') small_drive)))
     = Some (Some ''F'')"
  by (simp add: copyFile_def node_by_id_def insert_node_def small_drive_def report_file_def
      mk_node_def no_fault_def or_else_def reply_of_def Let_def)

text \<open>
  Claim C10, amended. \<open>copyFile\<close> never looks the target up: for a FILE node \<open>f\<close> of the
  actor and any non-empty \<open>parent_id\<close> \<open>p\<close>, whatever \<open>p\<close> names, the copy is made (when the
  repository answers the lookup and accepts the insert) and stored with parent \<open>p\<close>.
  So when \<open>p\<close> is not the id of a folder of the actor, the table afterwards holds a
  node whose parent reference breaks the node invariant.
\<close>

theorem copyFile_target_unvalidated:
  assumes "distinct (map nid nodes)" and "f \<in> set nodes"
    and "ntype f = ''file''" and "owner_id f = u" and "u \<noteq> []" and "p \<noteq> []"
    and "\<not> fault 1" and "\<not> fault 2" and "new_id \<notin> nid ` set nodes"
  shows "\<exists>c. copyFile fault new_id now (Some u) (nid f) (Some p) nodes
                = (Inr (201, c), nodes @ [c])
             \<and> nid c = new_id \<and> parent_id c = Some p
             \<and> (\<not> list_ex (\<lambda>m. nid m = p \<and> ntype m = ''folder'' \<and> owner_id m = u) nodes
                  \<longrightarrow> \<not> parent_ok (nodes @ [c]) c)"
proof -
  from assms have "node_by_id (fault 1) (nid f) nodes = Some f"
    by (simp add: node_by_id_found)
  from copyFile_success [OF this assms(3,4,5,8,9)] assms(6)
  show ?thesis
    by (simp add: Let_def or_else_def parent_ok_def)
qed

theorem copyFile_target_unvalidated_witness:
  "map_option parent_id
     (reply_of (fst (copyFile no_fault ''c1'' 9 (Some ''u'') ''f1'' (Some ''ghost'') small_drive)))
     = Some (Some ''ghost'')
   \<and> \<not> list_all (parent_ok (snd (copyFile no_fault ''c1'' 9 (Some ''u'') ''f1'' (Some ''ghost'')
                                small_drive)))
          (snd (copyFile no_fault ''c1'' 9 (Some ''u'') ''f1'' (Some ''ghost'') small_drive))"
proof -
  have d: "distinct (map nid small_drive)" and m: "report_file \<in> set small_drive"
    and t: "ntype report_file = ''file''" and o: "owner_id report_file = ''u''"
    and i: "nid report_file = ''f1''" and n: "''c1'' \<notin> nid ` set small_drive"
    and g: "\<not> list_ex (\<lambda>m. nid m = ''ghost'' \<and> ntype m = ''folder'' \<and> owner_id m = ''u'')
               small_drive"
    by (simp_all add: small_drive_def report_file_def mk_node_def)
  have u: "''u'' \<noteq> []" "''ghost'' \<noteq> []" by simp_all
  have f: "\<not> no_fault 1" "\<not> no_fault 2" by (simp_all add: no_fault_def)
  from copyFile_target_unvalidated [OF d m t o u f n, of 9] g
  obtain c where "copyFile no_fault ''c1'' 9 (Some ''u'') ''f1'' (Some ''ghost'') small_drive
                    = (Inr (201, c), small_drive @ [c])"
    and "parent_id c = Some ''ghost''" and "\<not> parent_ok (small_drive @ [c]) c"
    by (auto simp: i)
  then show ?thesis by (simp add: reply_of_def)
qed


subsection \<open>softDeleteFolder\<close>

text \<open>
  What a successful \<open>softDeleteFolder\<close> writes: the instant \<open>now\<close> on the folder and on
  the requester's non-deleted rows whose parent is the folder; every other row is as
  before.
\<close>

lemma softDeleteFolder_effect:
  assumes "node_by_id (fault 1) i nodes = Some folder"
    and "ntype folder = ''folder''" and "owner_id folder = u" and "u \<noteq> []"
    and "deleted_at folder = None" and "\<not> fault 2" and "\<not> fault 3"
  shows "softDeleteFolder fault now (Some u) i nodes
           = (Inr (200, (i, now)),
              map (\<lambda>n. if nid n = i \<or> (owner_id n = u \<and> parent_id n = Some i
                                         \<and> deleted_at n = None)
                        then n\<lparr>deleted_at := Some now\<rparr> else n) nodes)"
  using assms by (simp add: softDeleteFolder_def stamp_children_def stamp_by_id_def)

text \<open>
  Claim C1 at the tree \<open>F / A / B\<close>: \<open>softDeleteFolder\<close> on \<open>F\<close> succeeds and stamps \<open>F\<close>
  and its child \<open>A\<close> with the instant 7, and leaves the grandchild \<open>B\<close> active. The
  second update selects the rows with \<open>parent_id = F\<close> only, although its comment
  announces a recursive effect; the claim asks for every descendant at any depth.
\<close>

theorem softDeleteFolder_skips_grandchildren:
  "failure_of (fst (softDeleteFolder no_fault 7 (Some ''u'') ''F'' nested_drive)) = None
   \<and> map (\<lambda>n. (nid n, deleted_at n))
         (snd (softDeleteFolder no_fault 7 (Some ''u'') ''F'' nested_drive))
       = [(''F'', Some 7), (''A'', Some 7), (''B'', None)]"
  by (simp add: softDeleteFolder_def node_by_id_def stamp_by_id_def stamp_children_def
      nested_drive_def mk_node_def no_fault_def failure_of_def)

subsection \<open>searchNodes\<close>

text \<open>
  Whatever the query, a search returns the requester's non-deleted nodes (of the type
  asked for), latest update first.
\<close>

lemma searchNodes_owned_nodes:
  assumes "u \<noteq> []" and "trim q \<noteq> []" and "\<not> fault 1"
  shows "searchNodes fault (Some u) (Some q) type_param nodes
           = Inr (200, rev (sort_key updated_at
                   (filter (\<lambda>n. owner_id n = u \<and> deleted_at n = None
                                 \<and> (if type_param = Some ''file'' \<or> type_param = Some ''folder''
                                     then Some (ntype n) = type_param else True)) nodes)))"
proof -
  from assms(2) have q: "q \<noteq> []" by (auto simp: trim_def)
  have "filter (\<lambda>node. owner_id node = u)
          (rev (sort_key updated_at (filter Q nodes)))
        = rev (sort_key updated_at (filter (\<lambda>n. Q n \<and> owner_id n = u) nodes))" for Q
    by (simp add: rev_filter [symmetric] filter_sort conj_commute)
  from this [of "\<lambda>n. (ilike (''%'' @ q @ ''%'') (name n) \<or> owner_id n = u \<or> shared_with n = Some u)
                          \<and> deleted_at n = None
                          \<and> (if type_param = Some ''file'' \<or> type_param = Some ''folder''
                              then Some (ntype n) = type_param else True)"]
  have "filter (\<lambda>node. owner_id node = u)
          (rev (sort_key updated_at (filter (\<lambda>n. (ilike (''%'' @ q @ ''%'') (name n) \<or> owner_id n = u \<or> shared_with n = Some u)
                          \<and> deleted_at n = None
                          \<and> (if type_param = Some ''file'' \<or> type_param = Some ''folder''
                              then Some (ntype n) = type_param else True)) nodes)))
        = rev (sort_key updated_at
                   (filter (\<lambda>n. owner_id n = u \<and> deleted_at n = None
                                 \<and> (if type_param = Some ''file'' \<or> type_param = Some ''folder''
                                     then Some (ntype n) = type_param else True)) nodes))"
    by (auto intro!: arg_cong [where f = rev] arg_cong [where f = "sort_key updated_at"] filter_cong)
  with assms q show ?thesis
    by (simp add: searchNodes_def Let_def)
qed

text \<open>
  Claim C3 at the query \<open>zzz\<close>: account \<open>u\<close> owns \<open>docs\<close> and \<open>report\<close>, neither name
  contains \<open>zzz\<close>, and \<open>searchNodes\<close> returns both. The name pattern is one alternative
  of the \<open>or\<close> filter beside \<open>owner_id = userId\<close>, so every node of the requester
  passes it.
\<close>

theorem searchNodes_ignores_query:
  "map_option (map name)
     (reply_of (searchNodes no_fault (Some ''u'') (Some ''zzz'') None small_drive))
     = Some [''report'', ''docs'']"
  by (simp add: searchNodes_def small_drive_def report_file_def mk_node_def no_fault_def
      reply_of_def trim_def is_space_def ilike_def lower_char_def)

theorem searchNodes_ignores_query_witness:
  "truthy (Some ''zzz'') \<and> trim ''zzz'' \<noteq> []
   \<and> \<not> ilike ''%zzz%'' ''report'' \<and> \<not> ilike ''%zzz%'' ''docs''
   \<and> reply_of (searchNodes no_fault (Some ''u'') (Some ''zzz'') None small_drive) \<noteq> Some []"
  using searchNodes_ignores_query
  by (auto simp: trim_def is_space_def ilike_def lower_char_def)

subsection \<open>getFolderContents\<close>

text \<open>
  What the listing of an owned folder returns: its non-deleted direct children that
  belong to the requester, in ascending order of the pair (type, name).
\<close>

lemma getFolderContents_listing:
  assumes "u \<noteq> []" and "i \<noteq> []" and "i \<noteq> ''root''" and "i \<noteq> ''null''"
    and "node_by_id (fault 1) i nodes = Some folder"
    and "ntype folder = ''folder''" and "owner_id folder = u" and "\<not> fault 2"
  shows "\<exists>contents. getFolderContents fault (Some u) i nodes = Inr (200, (Some i, contents))
           \<and> sorted (map (\<lambda>n. (ntype n, name n)) contents)
           \<and> set contents = {n \<in> set nodes. owner_id n = u \<and> parent_id n = Some i
                                              \<and> deleted_at n = None}"
  using assms by (simp add: getFolderContents_def Let_def)

text \<open>
  Claim C4 at a folder \<open>P\<close> that holds the folder \<open>a\<close> and the file \<open>b\<close>: the listing
  returns the file first. The rows are ordered by \<open>type\<close> ascending, and \<open>"file"\<close> is
  before \<open>"folder"\<close>; the comment on that line says folders first.
\<close>

theorem getFolderContents_files_first:
  "map_option (\<lambda>d. map (\<lambda>n. (ntype n, name n)) (snd d))
     (reply_of (getFolderContents no_fault (Some ''u'') ''P'' listing_drive))
     = Some [(''file'', ''b''), (''folder'', ''a'')]"
  by (simp add: getFolderContents_def listing_drive_def mk_node_def no_fault_def reply_of_def
      node_by_id_def less_eq_prod_def less_char_def less_eq_char_def Let_def)

subsection \<open>markFileAsStarred and removeFileFromStarred\<close>

lemma at_most_one_row:
  "length (filter P rows) \<le> 1 \<Longrightarrow> filter P rows = [] \<or> (\<exists>r. filter P rows = [r])"
  by (cases "filter P rows") (auto simp: length_Suc_conv)

lemma markFileAsStarred_present:
  assumes "node_by_id (fault 1) i nodes = Some f" and "ntype f = ''file''"
    and "deleted_at f = None" and "u \<noteq> []" and "\<not> fault 2"
    and "filter (\<lambda>s. user_id s = u \<and> file_id s = i) stars = [r]"
  shows "markFileAsStarred fault new_id (Some u) i nodes stars = (Inr (200, FileId i), stars)"
  using assms by (simp add: markFileAsStarred_def star_of_def)

lemma markFileAsStarred_absent:
  assumes "node_by_id (fault 1) i nodes = Some f" and "ntype f = ''file''"
    and "deleted_at f = None" and "u \<noteq> []" and "\<not> fault 3"
    and "filter (\<lambda>s. user_id s = u \<and> file_id s = i) stars = []"
    and "new_id \<notin> star_id ` set stars"
  shows "markFileAsStarred fault new_id (Some u) i nodes stars
           = (Inr (201, Starred \<lparr> star_id = new_id, user_id = u, file_id = i \<rparr>),
              stars @ [\<lparr> star_id = new_id, user_id = u, file_id = i \<rparr>])"
  using assms by (simp add: markFileAsStarred_def star_of_def Let_def)

text \<open>
  Claim C9. Let \<open>f\<close> be an existing FILE node that is not deleted, \<open>u\<close> any account, and
  let the join table hold at most one row for \<open>(u, f)\<close>, as it does after any run of
  star and unstar calls one after the other. With the repository answering, a first
  \<open>markFileAsStarred\<close> succeeds, a second one right after it succeeds with status 200
  and changes nothing, and the table then holds exactly one row for \<open>(u, f)\<close>.
  \<open>removeFileFromStarred\<close> on a file that \<open>u\<close> has not starred succeeds with status 200
  and deletes no row.
\<close>

theorem star_idempotent_unstar_total:
  assumes "distinct (map nid nodes)" and "f \<in> set nodes"
    and "ntype f = ''file''" and "deleted_at f = None" and "u \<noteq> []"
    and "length (filter (\<lambda>s. user_id s = u \<and> file_id s = nid f) stars) \<le> 1"
    and "\<not> fault 1" and "\<not> fault 2" and "\<not> fault 3" and "new_id \<notin> star_id ` set stars"
    and "\<not> fault' 1" and "\<not> fault' 2"
  shows "failure_of (fst (markFileAsStarred fault new_id (Some u) (nid f) nodes stars)) = None
       \<and> markFileAsStarred fault' new_id' (Some u) (nid f) nodes
            (snd (markFileAsStarred fault new_id (Some u) (nid f) nodes stars))
          = (Inr (200, FileId (nid f)),
             snd (markFileAsStarred fault new_id (Some u) (nid f) nodes stars))
       \<and> length (filter (\<lambda>s. user_id s = u \<and> file_id s = nid f)
                   (snd (markFileAsStarred fault new_id (Some u) (nid f) nodes stars))) = 1
       \<and> (filter (\<lambda>s. user_id s = u \<and> file_id s = nid f) stars = []
            \<longrightarrow> removeFileFromStarred fault' (Some u) (nid f) nodes stars
                  = (Inr (200, FileId (nid f)), stars))"
proof -
  let ?P = "\<lambda>s. user_id s = u \<and> file_id s = nid f"
  have n1: "node_by_id (fault 1) (nid f) nodes = Some f"
    and n2: "node_by_id (fault' 1) (nid f) nodes = Some f"
    using assms by (simp_all add: node_by_id_found)
  have un: "filter ?P stars = [] \<longrightarrow> removeFileFromStarred fault' (Some u) (nid f) nodes stars
                  = (Inr (200, FileId (nid f)), stars)"
    using assms(3-5) n2 by (simp add: removeFileFromStarred_def star_of_def)
  from at_most_one_row [OF assms(6)]
  show ?thesis
  proof
    assume e: "filter ?P stars = []"
    let ?r = "\<lparr> star_id = new_id, user_id = u, file_id = nid f \<rparr>"
    have first: "markFileAsStarred fault new_id (Some u) (nid f) nodes stars
                   = (Inr (201, Starred ?r), stars @ [?r])"
      by (rule markFileAsStarred_absent [OF n1 assms(3,4,5,9) e assms(10)])
    have "filter ?P (stars @ [?r]) = [?r]" using e by simp
    from markFileAsStarred_present [OF n2 assms(3,4,5,12) this]
    show ?thesis using first un e by (simp add: failure_of_def)
  next
    assume "\<exists>r. filter ?P stars = [r]"
    then obtain r where r: "filter ?P stars = [r]" ..
    have first: "markFileAsStarred fault new_id (Some u) (nid f) nodes stars
                   = (Inr (200, FileId (nid f)), stars)"
      by (rule markFileAsStarred_present [OF n1 assms(3,4,5,8) r])
    from markFileAsStarred_present [OF n2 assms(3,4,5,12) r]
    show ?thesis using first un r by (simp add: failure_of_def)
  qed
qed

theorem star_idempotent_unstar_total_witness:
  "markFileAsStarred no_fault ''s1'' (Some ''v'') ''f1'' small_drive []
     = (Inr (201, Starred \<lparr> star_id = ''s1'', user_id = ''v'', file_id = ''f1'' \<rparr>),
        [\<lparr> star_id = ''s1'', user_id = ''v'', file_id = ''f1'' \<rparr>])
   \<and> markFileAsStarred no_fault ''s2'' (Some ''v'') ''f1'' small_drive
        [\<lparr> star_id = ''s1'', user_id = ''v'', file_id = ''f1'' \<rparr>]
     = (Inr (200, FileId ''f1''), [\<lparr> star_id = ''s1'', user_id = ''v'', file_id = ''f1'' \<rparr>])
   \<and> removeFileFromStarred no_fault (Some ''v'') ''f1'' small_drive []
     = (Inr (200, FileId ''f1''), [])"
proof -
  have d: "distinct (map nid small_drive)" and m: "report_file \<in> set small_drive"
    and t: "ntype report_file = ''file''" and a: "deleted_at report_file = None"
    and i: "nid report_file = ''f1''"
    by (simp_all add: small_drive_def report_file_def mk_node_def)
  have u: "''v'' \<noteq> []" by simp
  have s: "length (filter (\<lambda>s. user_id s = ''v'' \<and> file_id s = nid report_file) []) \<le> 1"
    and n: "''s1'' \<notin> star_id ` set []" by simp_all
  have f: "\<not> no_fault 1" "\<not> no_fault 2" "\<not> no_fault 3" by (simp_all add: no_fault_def)
  have first: "markFileAsStarred no_fault ''s1'' (Some ''v'') ''f1'' small_drive []
     = (Inr (201, Starred \<lparr> star_id = ''s1'', user_id = ''v'', file_id = ''f1'' \<rparr>),
        [\<lparr> star_id = ''s1'', user_id = ''v'', file_id = ''f1'' \<rparr>])"
    by (simp add: markFileAsStarred_def star_of_def node_by_id_def small_drive_def
        report_file_def mk_node_def no_fault_def Let_def)
  from star_idempotent_unstar_total [OF d m t a u s f n f(1,2), of "''s2''"] first
  show ?thesis by (simp add: i)
qed


subsection \<open>generatePublicLink\<close>









subsection \<open>accessPublicResource\<close>







subsection \<open>listFiles\<close>






subsection \<open>Parent chains and the parent relation\<close>

lemma find_by_id:
  "distinct (map nid nodes) \<Longrightarrow> n \<in> set nodes \<Longrightarrow> find (\<lambda>x. nid x = nid n) nodes = Some n"
  by (induction nodes) force+

lemma parent_rel_iff:
  "(i, p) \<in> parent_rel nodes \<longleftrightarrow> (\<exists>n \<in> set nodes. nid n = i \<and> parent_id n = Some p)"
  by (auto simp: parent_rel_def)

lemma chain_ends_no_loop:
  assumes "distinct (map nid nodes)"
  shows "chain_ends k nodes (Some i) \<Longrightarrow> (i, i) \<notin> (parent_rel nodes)\<^sup>+"
proof (induction k arbitrary: i)
  case 0
  then show ?case by simp
next
  case (Suc k)
  show ?case
  proof
    assume loop: "(i, i) \<in> (parent_rel nodes)\<^sup>+"
    then obtain j where ij: "(i, j) \<in> parent_rel nodes" and ji: "(j, i) \<in> (parent_rel nodes)\<^sup>*"
      by (meson tranclD)
    then have jj: "(j, j) \<in> (parent_rel nodes)\<^sup>+" by (meson rtrancl_into_trancl1)
    from ij obtain n where n: "n \<in> set nodes" "nid n = i" "parent_id n = Some j"
      by (auto simp: parent_rel_iff)
    with assms have "find (\<lambda>x. nid x = i) nodes = Some n" using find_by_id by blast
    with Suc.prems n have "chain_ends k nodes (Some j)" by simp
    with Suc.IH jj show False by blast
  qed
qed

lemma rooted_acyclic:
  assumes "distinct (map nid nodes)" and "rooted nodes"
  shows "acyclic (parent_rel nodes)"
  unfolding acyclic_def
proof (intro allI notI)
  fix x assume loop: "(x, x) \<in> (parent_rel nodes)\<^sup>+"
  then obtain j where "(x, j) \<in> parent_rel nodes" by (meson tranclD)
  then obtain n where "n \<in> set nodes" "nid n = x" by (auto simp: parent_rel_iff)
  with assms(2) have "chain_ends (length nodes) nodes (Some x)"
    by (auto simp: rooted_def list_all_iff)
  with chain_ends_no_loop [OF assms(1)] loop show False by blast
qed


lemma parent_okD:
  assumes "list_all (parent_ok nodes) nodes" and "n \<in> set nodes" and "parent_id n = Some p"
  shows "\<exists>m \<in> set nodes. nid m = p \<and> ntype m = ''folder'' \<and> owner_id m = owner_id n"
proof -
  from assms(1,2) have "parent_ok nodes n" by (simp add: list_all_iff)
  with assms(3) show ?thesis by (auto simp: parent_ok_def list_ex_iff)
qed

lemma parent_rel_closed:
  assumes "list_all (parent_ok nodes) nodes" and "(i, p) \<in> parent_rel nodes"
  shows "p \<in> nid ` set nodes"
proof -
  from assms(2) obtain n where "n \<in> set nodes" "parent_id n = Some p"
    by (auto simp: parent_rel_iff)
  from parent_okD [OF assms(1) this] show ?thesis by auto
qed

lemma ancestors_closed:
  assumes "list_all (parent_ok nodes) nodes" and "(i, j) \<in> (parent_rel nodes)\<^sup>+"
  shows "j \<in> nid ` set nodes"
  using assms(2)
proof (cases rule: tranclE)
  case base
  then show ?thesis using assms(1) by (rule parent_rel_closed [rotated])
next
  case (step c)
  then show ?thesis using assms(1) by (meson parent_rel_closed)
qed

lemma chain_ends_by_card:
  assumes d: "distinct (map nid nodes)" and a: "acyclic (parent_rel nodes)"
    and c: "list_all (parent_ok nodes) nodes"
  shows "i \<in> nid ` set nodes \<Longrightarrow> card {j. (i, j) \<in> (parent_rel nodes)\<^sup>+} < k
           \<Longrightarrow> chain_ends k nodes (Some i)"
proof (induction k arbitrary: i)
  case 0
  then show ?case by simp
next
  case (Suc k)
  let ?R = "parent_rel nodes"
  from Suc.prems(1) obtain n where n: "n \<in> set nodes" "nid n = i" by auto
  with d have f: "find (\<lambda>x. nid x = i) nodes = Some n" using find_by_id by blast
  show ?case
  proof (cases "parent_id n")
    case None
    with f show ?thesis by simp
  next
    case (Some p)
    with n have ip: "(i, p) \<in> ?R" by (auto simp: parent_rel_iff)
    with c have pin: "p \<in> nid ` set nodes" by (rule parent_rel_closed)
    have fin: "finite {j. (i, j) \<in> ?R\<^sup>+}"
    proof (rule finite_subset)
      show "{j. (i, j) \<in> ?R\<^sup>+} \<subseteq> nid ` set nodes" using ancestors_closed [OF c] by blast
    qed simp
    have sub: "{j. (p, j) \<in> ?R\<^sup>+} \<subseteq> {j. (i, j) \<in> ?R\<^sup>+}"
      using ip by (auto intro: trancl_into_trancl2)
    have "p \<in> {j. (i, j) \<in> ?R\<^sup>+}" using ip by auto
    moreover have "p \<notin> {j. (p, j) \<in> ?R\<^sup>+}" using a by (auto simp: acyclic_def)
    ultimately have "{j. (p, j) \<in> ?R\<^sup>+} \<subset> {j. (i, j) \<in> ?R\<^sup>+}" using sub by blast
    with fin have "card {j. (p, j) \<in> ?R\<^sup>+} < card {j. (i, j) \<in> ?R\<^sup>+}"
      by (rule psubset_card_mono)
    with Suc.prems(2) have "card {j. (p, j) \<in> ?R\<^sup>+} < k" by simp
    with Suc.IH pin have "chain_ends k nodes (Some p)" by blast
    with f Some show ?thesis by simp
  qed
qed

lemma acyclic_rooted:
  assumes d: "distinct (map nid nodes)" and a: "acyclic (parent_rel nodes)"
    and c: "list_all (parent_ok nodes) nodes"
  shows "rooted nodes"
  unfolding rooted_def list_all_iff
proof
  fix n assume n: "n \<in> set nodes"
  let ?A = "{j. (nid n, j) \<in> (parent_rel nodes)\<^sup>+}"
  have "?A \<subseteq> nid ` set nodes - {nid n}"
    using ancestors_closed [OF c] a by (auto simp: acyclic_def)
  then have "card ?A \<le> card (nid ` set nodes - {nid n})"
    by (intro card_mono) simp_all
  also have "\<dots> < card (nid ` set nodes)"
    using n by (intro card_Diff1_less) simp_all
  also have "\<dots> \<le> length nodes"
    by (metis card_length length_map list.set_map)
  finally have "card ?A < length nodes" .
  with chain_ends_by_card [OF d a c] n
  show "chain_ends (length nodes) nodes (Some (nid n))" by blast
qed

lemma well_formed_iff:
  "well_formed nodes \<longleftrightarrow>
     distinct (map nid nodes) \<and> acyclic (parent_rel nodes) \<and> list_all (parent_ok nodes) nodes"
  using rooted_acyclic acyclic_rooted by (auto simp: well_formed_def)


subsection \<open>The cycle check of moveFolder\<close>

lemma checkCircular_deeper:
  "checkCircular d cs rest a t = Some b \<Longrightarrow> checkCircular (Suc d) cs rest a t = Some b"
proof (induction d cs rest a t arbitrary: b rule: checkCircular.induct)
  case (3 d childNodes n rest folderId targetId)
  show ?case
  proof (cases "parent_id n = Some folderId \<and> nid n \<noteq> targetId")
    case False
    with 3 show ?thesis by auto
  next
    case True
    with "3.prems" obtain c where c: "checkCircular d childNodes childNodes (nid n) targetId = Some c"
      by (cases "checkCircular d childNodes childNodes (nid n) targetId") auto
    with True "3.IH"(1)
    have deep: "checkCircular (Suc d) childNodes childNodes (nid n) targetId = Some c" by simp
    show ?thesis
    proof (cases c)
      case True
      with \<open>parent_id n = Some folderId \<and> nid n \<noteq> targetId\<close> c deep "3.prems"
      show ?thesis by simp
    next
      case False
      with True c "3.prems" "3.IH"(2)
      have "checkCircular (Suc (Suc d)) childNodes rest folderId targetId = Some b" by simp
      with True False deep show ?thesis by simp
    qed
  qed
qed simp_all

lemma checkCircular_loop_finds:
  assumes "n \<in> set rest" and "parent_id n = Some a"
    and "nid n = t \<or> checkCircular d cs cs (nid n) t \<noteq> Some False"
  shows "checkCircular (Suc d) cs rest a t \<noteq> Some False"
  using assms by (induction rest) (auto split: option.splits bool.splits)

lemma checkCircular_complete:
  "(t, a) \<in> (parent_rel cs)\<^sup>+ \<Longrightarrow> checkCircular d cs cs a t \<noteq> Some False"
proof (induction arbitrary: d rule: trancl_induct)
  case (base y)
  then obtain n where n: "n \<in> set cs" "nid n = t" "parent_id n = Some y"
    by (auto simp: parent_rel_iff)
  show ?case
  proof (cases d)
    case 0
    then show ?thesis by simp
  next
    case (Suc d')
    with n show ?thesis using checkCircular_loop_finds [of n cs y t d' cs] by simp
  qed
next
  case (step y z)
  then obtain n where n: "n \<in> set cs" "nid n = y" "parent_id n = Some z"
    by (auto simp: parent_rel_iff)
  show ?case
  proof (cases d)
    case 0
    then show ?thesis by simp
  next
    case (Suc d')
    from step.IH [of d'] n have "checkCircular d' cs cs (nid n) t \<noteq> Some False" by simp
    with n Suc show ?thesis using checkCircular_loop_finds [of n cs z t d' cs] by simp
  qed
qed

lemma descendants_finite: "finite {c. (c, x) \<in> (parent_rel cs)\<^sup>+}"
proof (rule finite_subset)
  show "{c. (c, x) \<in> (parent_rel cs)\<^sup>+} \<subseteq> nid ` set cs"
  proof
    fix c assume "c \<in> {c. (c, x) \<in> (parent_rel cs)\<^sup>+}"
    then obtain z where "(c, z) \<in> parent_rel cs" by (auto dest: tranclD)
    then show "c \<in> nid ` set cs" by (auto simp: parent_rel_iff)
  qed
qed simp

lemma descendants_card: "card {c. (c, x) \<in> (parent_rel cs)\<^sup>+} \<le> length cs"
proof -
  have "{c. (c, x) \<in> (parent_rel cs)\<^sup>+} \<subseteq> nid ` set cs"
  proof
    fix c assume "c \<in> {c. (c, x) \<in> (parent_rel cs)\<^sup>+}"
    then obtain z where "(c, z) \<in> parent_rel cs" by (auto dest: tranclD)
    then show "c \<in> nid ` set cs" by (auto simp: parent_rel_iff)
  qed
  then have "card {c. (c, x) \<in> (parent_rel cs)\<^sup>+} \<le> card (nid ` set cs)"
    by (intro card_mono) simp_all
  also have "\<dots> \<le> length cs" by (metis card_length length_map list.set_map)
  finally show ?thesis .
qed

lemma child_descendants_less:
  assumes "acyclic (parent_rel cs)" and "n \<in> set cs" and "parent_id n = Some x"
  shows "card {c. (c, nid n) \<in> (parent_rel cs)\<^sup>+} < card {c. (c, x) \<in> (parent_rel cs)\<^sup>+}"
proof (rule psubset_card_mono [OF descendants_finite])
  let ?R = "parent_rel cs"
  from assms(2,3) have e: "(nid n, x) \<in> ?R" by (auto simp: parent_rel_iff)
  then have "{c. (c, nid n) \<in> ?R\<^sup>+} \<subseteq> {c. (c, x) \<in> ?R\<^sup>+}"
    by (auto intro: trancl_into_trancl)
  moreover have "nid n \<in> {c. (c, x) \<in> ?R\<^sup>+}" using e by auto
  moreover have "nid n \<notin> {c. (c, nid n) \<in> ?R\<^sup>+}" using assms(1) by (auto simp: acyclic_def)
  ultimately show "{c. (c, nid n) \<in> ?R\<^sup>+} \<subset> {c. (c, x) \<in> ?R\<^sup>+}" by blast
qed

lemma checkCircular_returns:
  assumes a: "acyclic (parent_rel cs)"
  shows "set rest \<subseteq> set cs \<Longrightarrow> card {c. (c, x) \<in> (parent_rel cs)\<^sup>+} < d
           \<Longrightarrow> checkCircular d cs rest x t \<noteq> None"
proof (induction d arbitrary: x rest)
  case 0
  then show ?case by simp
next
  case (Suc d)
  from Suc.prems(1) show ?case
  proof (induction rest)
    case Nil
    then show ?case by simp
  next
    case (Cons n rest)
    then have n: "n \<in> set cs" and r: "checkCircular (Suc d) cs rest x t \<noteq> None" by simp_all
    show ?case
    proof (cases "parent_id n = Some x \<and> nid n \<noteq> t")
      case True
      with child_descendants_less [OF a n] Suc.prems(2)
      have "card {c. (c, nid n) \<in> (parent_rel cs)\<^sup>+} < d" by simp
      with Suc.IH [of cs "nid n"] have "checkCircular d cs cs (nid n) t \<noteq> None" by simp
      with True r show ?thesis by (auto split: option.splits bool.splits)
    next
      case False
      with r show ?thesis by auto
    qed
  qed
qed

lemma checkCircular_decides:
  assumes "acyclic (parent_rel cs)" and "(t, a) \<in> (parent_rel cs)\<^sup>+"
  shows "checkCircular (Suc (length cs)) cs cs a t = Some True"
proof -
  have "card {c. (c, a) \<in> (parent_rel cs)\<^sup>+} < Suc (length cs)"
    using descendants_card [of a cs] by simp
  with checkCircular_returns [OF assms(1), of cs a "Suc (length cs)" t]
  have "checkCircular (Suc (length cs)) cs cs a t \<noteq> None" by simp
  moreover from checkCircular_complete [OF assms(2)]
  have "checkCircular (Suc (length cs)) cs cs a t \<noteq> Some False" .
  ultimately show ?thesis by (cases "checkCircular (Suc (length cs)) cs cs a t") auto
qed

lemma parent_rel_filter: "parent_rel (filter P nodes) \<subseteq> parent_rel nodes"
  by (auto simp: parent_rel_def)

lemma owned_chain:
  assumes d: "distinct (map nid nodes)" and c: "list_all (parent_ok nodes) nodes"
    and tn: "tn \<in> set nodes" "owner_id tn = u"
    and up: "(nid tn, a) \<in> (parent_rel nodes)\<^sup>+"
  shows "(nid tn, a) \<in> (parent_rel (filter (\<lambda>n. owner_id n = u) nodes))\<^sup>+"
proof -
  let ?U = "filter (\<lambda>n. owner_id n = u) nodes"
  have edge: "(i, p) \<in> parent_rel ?U \<and> (\<exists>m \<in> set nodes. nid m = p \<and> owner_id m = u)"
    if e: "(i, p) \<in> parent_rel nodes" and o: "\<exists>m \<in> set nodes. nid m = i \<and> owner_id m = u" for i p
  proof -
    from e obtain n where n: "n \<in> set nodes" "nid n = i" "parent_id n = Some p"
      by (auto simp: parent_rel_iff)
    from o obtain m where m: "m \<in> set nodes" "nid m = i" "owner_id m = u" by blast
    from d n(1,2) m(1,2) have "n = m" by (metis distinct_map inj_onD)
    with m have nu: "owner_id n = u" by simp
    with n have "(i, p) \<in> parent_rel ?U" by (auto simp: parent_rel_iff)
    moreover from parent_okD [OF c n(1,3)] nu
    have "\<exists>m \<in> set nodes. nid m = p \<and> owner_id m = u" by auto
    ultimately show ?thesis by blast
  qed
  from up have "(nid tn, a) \<in> (parent_rel ?U)\<^sup>+ \<and> (\<exists>m \<in> set nodes. nid m = a \<and> owner_id m = u)"
  proof (induction rule: trancl_induct)
    case (base y)
    with edge [of "nid tn" y] tn show ?case by blast
  next
    case (step y z)
    with edge [of y z]
    show ?case by (meson trancl.trancl_into_trancl)
  qed
  then show ?thesis by blast
qed


lemma moveFolder_rejects:
  assumes wf: "well_formed nodes"
    and f: "folder \<in> set nodes" "ntype folder = ''folder''" "owner_id folder = u"
    and t: "tn \<in> set nodes" "ntype tn = ''folder''" "owner_id tn = u"
    and ne: "u \<noteq> []" "nid tn \<noteq> []"
    and ok: "\<not> fault 1" "\<not> fault 2" "\<not> fault 3"
    and below: "nid tn = nid folder \<or> descendant nodes (nid tn) (nid folder)"
  shows "moveFolder fault now (Some u) (nid folder) (Some (nid tn)) nodes
           = (Inl (400, INVALID_MOVE), nodes)"
proof -
  from wf have d: "distinct (map nid nodes)" and r: "rooted nodes"
    and c: "list_all (parent_ok nodes) nodes" by (simp_all add: well_formed_def)
  from d f(1) ok(1) have nf: "node_by_id (fault 1) (nid folder) nodes = Some folder"
    by (simp add: node_by_id_found)
  from d t(1) ok(2) have nt: "node_by_id (fault 2) (nid tn) nodes = Some tn"
    by (simp add: node_by_id_found)
  show ?thesis
  proof (cases "nid folder = nid tn")
    case True
    with nf nt f t ne show ?thesis by (simp add: moveFolder_def)
  next
    case False
    let ?U = "filter (\<lambda>n. owner_id n = u) nodes"
    from False below have "(nid tn, nid folder) \<in> (parent_rel nodes)\<^sup>+"
      by (auto simp: descendant_def)
    from owned_chain [OF d c t(1,3) this]
    have up: "(nid tn, nid folder) \<in> (parent_rel ?U)\<^sup>+" .
    have "acyclic (parent_rel ?U)"
      using rooted_acyclic [OF d r] parent_rel_filter by (rule acyclic_subset)
    from checkCircular_decides [OF this up]
    have "checkCircular (Suc (length ?U)) ?U ?U (nid folder) (nid tn) = Some True" .
    with False nf nt f t ne ok(3) show ?thesis by (simp add: moveFolder_def)
  qed
qed

lemma set_parent_ids: "map nid (set_parent i p now nodes) = map nid nodes"
  by (simp add: set_parent_def)

lemma parent_rel_set_parent:
  "parent_rel (set_parent i (Some t) now nodes) \<subseteq> insert (i, t) (parent_rel nodes)"
  by (auto simp: parent_rel_def set_parent_def split: if_splits)

lemma parent_okI:
  "parent_id n = Some p \<Longrightarrow> m \<in> set nodes \<Longrightarrow> nid m = p \<Longrightarrow> ntype m = ''folder''
     \<Longrightarrow> owner_id m = owner_id n \<Longrightarrow> parent_ok nodes n"
  by (auto simp: parent_ok_def list_ex_iff)

lemma set_parent_well_formed:
  assumes wf: "well_formed nodes"
    and f: "f \<in> set nodes" and t: "tn \<in> set nodes" "ntype tn = ''folder''"
      "owner_id tn = owner_id f"
    and ne: "nid tn \<noteq> nid f" and up: "(nid tn, nid f) \<notin> (parent_rel nodes)\<^sup>+"
  shows "well_formed (set_parent (nid f) (Some (nid tn)) now nodes)"
proof -
  let ?g = "\<lambda>n. if nid n = nid f then n\<lparr>parent_id := Some (nid tn), updated_at := now\<rparr> else n"
  let ?nodes' = "set_parent (nid f) (Some (nid tn)) now nodes"
  from wf have d: "distinct (map nid nodes)" and a: "acyclic (parent_rel nodes)"
    and c: "list_all (parent_ok nodes) nodes" by (simp_all add: well_formed_iff)
  have eq: "?nodes' = map ?g nodes" by (simp add: set_parent_def)
  have g: "nid (?g n) = nid n" "ntype (?g n) = ntype n" "owner_id (?g n) = owner_id n" for n
    by simp_all
  have mem: "?g m \<in> set ?nodes'" if "m \<in> set nodes" for m
    using that unfolding eq set_map by (rule imageI)
  have d': "distinct (map nid ?nodes')" using d by (simp add: set_parent_ids)
  from ne up have "(nid tn, nid f) \<notin> (parent_rel nodes)\<^sup>*" by (auto simp: rtrancl_eq_or_trancl)
  with a have "acyclic (insert (nid f, nid tn) (parent_rel nodes))" by (simp add: acyclic_insert)
  then have a': "acyclic (parent_rel ?nodes')"
    using parent_rel_set_parent by (rule acyclic_subset)
  have c': "list_all (parent_ok ?nodes') ?nodes'"
    unfolding list_all_iff
  proof
    fix n' assume "n' \<in> set ?nodes'"
    then obtain n where n: "n \<in> set nodes" "n' = ?g n" by (auto simp: eq)
    show "parent_ok ?nodes' n'"
    proof (cases "nid n = nid f")
      case True
      with d n(1) f have "n = f" by (metis distinct_map inj_onD)
      with n True t have p: "parent_id n' = Some (nid tn)" and o: "owner_id tn = owner_id n'"
        by simp_all
      from p mem [OF t(1)] show ?thesis
      proof (rule parent_okI)
        show "nid (?g tn) = nid tn" by simp
        show "ntype (?g tn) = ''folder''" using t(2) by simp
        show "owner_id (?g tn) = owner_id n'" using o by simp
      qed
    next
      case False
      with n have same: "n' = n" by simp
      show ?thesis
      proof (cases "parent_id n")
        case None
        with same show ?thesis by (simp add: parent_ok_def)
      next
        case (Some p)
        from parent_okD [OF c n(1) Some] obtain m where
          m: "m \<in> set nodes" "nid m = p" "ntype m = ''folder''" "owner_id m = owner_id n"
          by blast
        from Some [folded same] mem [OF m(1)] show ?thesis
        proof (rule parent_okI)
          show "nid (?g m) = p" using m(2) by simp
          show "ntype (?g m) = ''folder''" using m(3) by simp
          show "owner_id (?g m) = owner_id n'" using m(4) same by simp
        qed
      qed
    qed
  qed
  from d' a' c' show ?thesis by (simp add: well_formed_iff)
qed


subsection \<open>Moves keep the hierarchy well formed\<close>

lemma moveFolder_validated:
  assumes "u \<noteq> []" and "t \<noteq> []"
    and "node_by_id (fault 1) i nodes = Some folder"
    and "ntype folder = ''folder''" and "owner_id folder = u"
    and "node_by_id (fault 2) t nodes = Some tn"
    and "ntype tn = ''folder''" and "owner_id tn = u" and "i \<noteq> t"
  shows "moveFolder fault now (Some u) i (Some t) nodes =
           (case (if fault 3 then Some False
                  else checkCircular (Suc (length (filter (\<lambda>n. owner_id n = u) nodes)))
                         (filter (\<lambda>n. owner_id n = u) nodes)
                         (filter (\<lambda>n. owner_id n = u) nodes) i t) of
              None \<Rightarrow> (Inl (500, RANGE_ERROR), nodes)
            | Some True \<Rightarrow> (Inl (400, INVALID_MOVE), nodes)
            | Some False \<Rightarrow>
                if fault 4 then (Inl (500, DB_UPDATE_FAILED), nodes)
                else (case single (filter (\<lambda>n. nid n = i) (set_parent i (Some t) now nodes)) of
                        None \<Rightarrow> (Inl (500, DB_UPDATE_FAILED), set_parent i (Some t) now nodes)
                      | Some m \<Rightarrow> (Inr (200, m), set_parent i (Some t) now nodes)))"
  using assms by (simp add: moveFolder_def Let_def split: option.splits bool.splits)

lemma moveFolder_effect:
  assumes changed: "snd (moveFolder fault now userId i target nodes) \<noteq> nodes"
  obtains folder tn u t where
    "userId = Some u" and "target = Some t"
    and "node_by_id (fault 1) i nodes = Some folder" and "owner_id folder = u"
    and "node_by_id (fault 2) t nodes = Some tn" and "ntype tn = ''folder''"
    and "owner_id tn = u" and "i \<noteq> t"
    and "fault 3 \<or> checkCircular (Suc (length (filter (\<lambda>n. owner_id n = u) nodes)))
                      (filter (\<lambda>n. owner_id n = u) nodes)
                      (filter (\<lambda>n. owner_id n = u) nodes) i t = Some False"
    and "snd (moveFolder fault now userId i target nodes) = set_parent i (Some t) now nodes"
proof -
  have tu: "truthy userId"
  proof (rule ccontr)
    assume "\<not> truthy userId"
    then have "snd (moveFolder fault now userId i target nodes) = nodes"
      by (simp add: moveFolder_def)
    with changed show False by simp
  qed
  have tt: "truthy target"
  proof (rule ccontr)
    assume "\<not> truthy target"
    then have "snd (moveFolder fault now userId i target nodes) = nodes"
      by (simp add: moveFolder_def)
    with changed show False by simp
  qed
  from tu obtain u where u: "userId = Some u" "u \<noteq> []" by (cases userId) auto
  from tt obtain t where t: "target = Some t" "t \<noteq> []" by (cases target) auto
  obtain folder where f: "node_by_id (fault 1) i nodes = Some folder"
  proof (cases "node_by_id (fault 1) i nodes")
    case None
    with u t have "snd (moveFolder fault now userId i target nodes) = nodes"
      by (simp add: moveFolder_def)
    with changed show ?thesis by simp
  next
    case (Some folder)
    then show ?thesis by (rule that)
  qed
  have fv: "ntype folder = ''folder'' \<and> owner_id folder = u"
  proof (rule ccontr)
    assume "\<not> (ntype folder = ''folder'' \<and> owner_id folder = u)"
    with u t f have "snd (moveFolder fault now userId i target nodes) = nodes"
      by (auto simp add: moveFolder_def)
    with changed show False by simp
  qed
  obtain tn where n: "node_by_id (fault 2) t nodes = Some tn"
  proof (cases "node_by_id (fault 2) t nodes")
    case None
    with u t f fv have "snd (moveFolder fault now userId i target nodes) = nodes"
      by (simp add: moveFolder_def)
    with changed show ?thesis by simp
  next
    case (Some tn)
    then show ?thesis by (rule that)
  qed
  have tv: "ntype tn = ''folder'' \<and> owner_id tn = u \<and> i \<noteq> t"
  proof (rule ccontr)
    assume "\<not> (ntype tn = ''folder'' \<and> owner_id tn = u \<and> i \<noteq> t)"
    with u t f fv n have "snd (moveFolder fault now userId i target nodes) = nodes"
      by (auto simp add: moveFolder_def)
    with changed show False by simp
  qed
  let ?U = "filter (\<lambda>n. owner_id n = u) nodes"
  let ?c = "if fault 3 then Some False else checkCircular (Suc (length ?U)) ?U ?U i t"
  note run = moveFolder_validated [OF u(2) t(2) f conjunct1 [OF fv] conjunct2 [OF fv] n
      conjunct1 [OF tv] conjunct1 [OF conjunct2 [OF tv]] conjunct2 [OF conjunct2 [OF tv]],
      of now]
  have c: "?c = Some False"
  proof (cases ?c)
    case None
    with run u(1) t(1) have "snd (moveFolder fault now userId i target nodes) = nodes" by simp
    with changed show ?thesis by simp
  next
    case (Some b)
    show ?thesis
    proof (cases b)
      case True
      with Some run u(1) t(1) have "snd (moveFolder fault now userId i target nodes) = nodes" by simp
      with changed show ?thesis by simp
    next
      case False
      with Some show ?thesis by simp
    qed
  qed
  have nf: "\<not> fault 4"
  proof
    assume "fault 4"
    with c run u(1) t(1) have "snd (moveFolder fault now userId i target nodes) = nodes" by simp
    with changed show False by simp
  qed
  from c nf run u(1) t(1)
  have st: "snd (moveFolder fault now userId i target nodes) = set_parent i (Some t) now nodes"
    by (cases "single (filter (\<lambda>n. nid n = i) (set_parent i (Some t) now nodes))") simp_all
  from c have "fault 3 \<or> checkCircular (Suc (length ?U)) ?U ?U i t = Some False"
    by (cases "fault 3") simp_all
  with u(1) t(1) f fv n tv st show ?thesis by (intro that [of u t folder tn]) simp_all
qed

lemma moveFolder_preserves:
  assumes wf: "well_formed nodes" and ok: "\<not> fault 3"
  shows "well_formed (snd (moveFolder fault now userId i target nodes))"
proof (cases "snd (moveFolder fault now userId i target nodes) = nodes")
  case True
  with wf show ?thesis by simp
next
  case False
  then obtain folder tn u t where
    f: "node_by_id (fault 1) i nodes = Some folder" "owner_id folder = u"
    and n: "node_by_id (fault 2) t nodes = Some tn" "ntype tn = ''folder''" "owner_id tn = u"
    and ne: "i \<noteq> t"
    and cc: "fault 3 \<or> checkCircular (Suc (length (filter (\<lambda>n. owner_id n = u) nodes)))
                      (filter (\<lambda>n. owner_id n = u) nodes)
                      (filter (\<lambda>n. owner_id n = u) nodes) i t = Some False"
    and st: "snd (moveFolder fault now userId i target nodes) = set_parent i (Some t) now nodes"
    by (rule moveFolder_effect)
  from wf have d: "distinct (map nid nodes)" and c: "list_all (parent_ok nodes) nodes"
    by (simp_all add: well_formed_def)
  from node_by_id_SomeD [OF f(1)] have fm: "folder \<in> set nodes" "nid folder = i" by simp_all
  from node_by_id_SomeD [OF n(1)] have tm: "tn \<in> set nodes" "nid tn = t" by simp_all
  let ?U = "filter (\<lambda>n. owner_id n = u) nodes"
  have "(nid tn, nid folder) \<notin> (parent_rel nodes)\<^sup>+"
  proof
    assume "(nid tn, nid folder) \<in> (parent_rel nodes)\<^sup>+"
    from owned_chain [OF d c tm(1) n(3) this]
    have "(t, i) \<in> (parent_rel ?U)\<^sup>+" using fm tm by simp
    from checkCircular_complete [OF this] cc ok show False by blast
  qed
  from set_parent_well_formed [OF wf fm(1) tm(1) n(2) _ _ this, of now] f n ne fm tm st
  show ?thesis by simp
qed

lemma moveFile_validated:
  assumes "u \<noteq> []" and "t \<noteq> []"
    and "node_by_id (fault 1) i nodes = Some fl"
    and "ntype fl = ''file''" and "owner_id fl = u"
    and "node_by_id (fault 2) t nodes = Some tn"
    and "ntype tn = ''folder''" and "owner_id tn = u"
  shows "moveFile fault now (Some u) i (Some t) nodes =
           (if fault 3 then (Inl (500, DB_UPDATE_FAILED), nodes)
            else (case single (filter (\<lambda>n. nid n = i) (set_parent i (Some t) now nodes)) of
                    None \<Rightarrow> (Inl (500, DB_UPDATE_FAILED), set_parent i (Some t) now nodes)
                  | Some m \<Rightarrow> (Inr (200, m), set_parent i (Some t) now nodes)))"
  using assms by (simp add: moveFile_def Let_def split: option.splits)

lemma moveFile_effect:
  assumes changed: "snd (moveFile fault now userId i target nodes) \<noteq> nodes"
  obtains fl tn u t where
    "userId = Some u" and "target = Some t"
    and "node_by_id (fault 1) i nodes = Some fl" and "ntype fl = ''file''"
    and "owner_id fl = u"
    and "node_by_id (fault 2) t nodes = Some tn" and "ntype tn = ''folder''"
    and "owner_id tn = u"
    and "snd (moveFile fault now userId i target nodes) = set_parent i (Some t) now nodes"
proof -
  have tu: "truthy userId"
  proof (rule ccontr)
    assume "\<not> truthy userId"
    then have "snd (moveFile fault now userId i target nodes) = nodes"
      by (simp add: moveFile_def)
    with changed show False by simp
  qed
  have tt: "truthy target"
  proof (rule ccontr)
    assume "\<not> truthy target"
    then have "snd (moveFile fault now userId i target nodes) = nodes"
      by (simp add: moveFile_def)
    with changed show False by simp
  qed
  from tu obtain u where u: "userId = Some u" "u \<noteq> []" by (cases userId) auto
  from tt obtain t where t: "target = Some t" "t \<noteq> []" by (cases target) auto
  obtain fl where f: "node_by_id (fault 1) i nodes = Some fl"
  proof (cases "node_by_id (fault 1) i nodes")
    case None
    with u t have "snd (moveFile fault now userId i target nodes) = nodes"
      by (simp add: moveFile_def)
    with changed show ?thesis by simp
  next
    case (Some fl)
    then show ?thesis by (rule that)
  qed
  have fv: "ntype fl = ''file'' \<and> owner_id fl = u"
  proof (rule ccontr)
    assume "\<not> (ntype fl = ''file'' \<and> owner_id fl = u)"
    with u t f have "snd (moveFile fault now userId i target nodes) = nodes"
      by (auto simp add: moveFile_def)
    with changed show False by simp
  qed
  obtain tn where n: "node_by_id (fault 2) t nodes = Some tn"
  proof (cases "node_by_id (fault 2) t nodes")
    case None
    with u t f fv have "snd (moveFile fault now userId i target nodes) = nodes"
      by (simp add: moveFile_def)
    with changed show ?thesis by simp
  next
    case (Some tn)
    then show ?thesis by (rule that)
  qed
  have tv: "ntype tn = ''folder'' \<and> owner_id tn = u"
  proof (rule ccontr)
    assume "\<not> (ntype tn = ''folder'' \<and> owner_id tn = u)"
    with u t f fv n have "snd (moveFile fault now userId i target nodes) = nodes"
      by (auto simp add: moveFile_def)
    with changed show False by simp
  qed
  note run = moveFile_validated [OF u(2) t(2) f conjunct1 [OF fv] conjunct2 [OF fv] n
      conjunct1 [OF tv] conjunct2 [OF tv], of now, folded u(1) t(1)]
  have nf: "\<not> fault 3"
  proof
    assume "fault 3"
    with run u(1) t(1) have "snd (moveFile fault now userId i target nodes) = nodes" by simp
    with changed show False by simp
  qed
  from nf run u(1) t(1)
  have st: "snd (moveFile fault now userId i target nodes) = set_parent i (Some t) now nodes"
    by (cases "single (filter (\<lambda>n. nid n = i) (set_parent i (Some t) now nodes))") simp_all
  with u(1) t(1) f fv n tv show ?thesis by (intro that [of u t fl tn]) simp_all
qed

lemma moveFile_preserves:
  assumes wf: "well_formed nodes"
  shows "well_formed (snd (moveFile fault now userId i target nodes))"
proof (cases "snd (moveFile fault now userId i target nodes) = nodes")
  case True
  with wf show ?thesis by simp
next
  case False
  then obtain fl tn u t where
    f: "node_by_id (fault 1) i nodes = Some fl" "ntype fl = ''file''" "owner_id fl = u"
    and n: "node_by_id (fault 2) t nodes = Some tn" "ntype tn = ''folder''" "owner_id tn = u"
    and st: "snd (moveFile fault now userId i target nodes) = set_parent i (Some t) now nodes"
    by (rule moveFile_effect)
  from wf have d: "distinct (map nid nodes)" and c: "list_all (parent_ok nodes) nodes"
    by (simp_all add: well_formed_def)
  from node_by_id_SomeD [OF f(1)] have fm: "fl \<in> set nodes" "nid fl = i" by simp_all
  from node_by_id_SomeD [OF n(1)] have tm: "tn \<in> set nodes" "nid tn = t" by simp_all
  have ne: "nid tn \<noteq> nid fl"
  proof
    assume "nid tn = nid fl"
    with d tm(1) fm(1) have "tn = fl" by (metis distinct_map inj_onD)
    with f(2) n(2) show False by simp
  qed
  have "(nid tn, nid fl) \<notin> (parent_rel nodes)\<^sup>+"
  proof
    assume "(nid tn, nid fl) \<in> (parent_rel nodes)\<^sup>+"
    then obtain x where "(x, nid fl) \<in> parent_rel nodes" by (meson tranclE)
    then obtain k where k: "k \<in> set nodes" "parent_id k = Some (nid fl)"
      by (auto simp: parent_rel_iff)
    from parent_okD [OF c k] obtain m where m: "m \<in> set nodes" "nid m = nid fl"
      "ntype m = ''folder''" by blast
    from d m(1,2) fm(1) have "m = fl" by (metis distinct_map inj_onD)
    with m(3) f(2) show False by simp
  qed
  from set_parent_well_formed [OF wf fm(1) tm(1) n(2) _ ne this, of now] f n fm tm st
  show ?thesis by simp
qed


subsection \<open>Runs of requests\<close>

lemma parent_rel_append:
  "parent_rel (nodes @ [row]) \<subseteq>
     (case parent_id row of None \<Rightarrow> parent_rel nodes
      | Some p \<Rightarrow> insert (nid row, p) (parent_rel nodes))"
  by (auto simp: parent_rel_def split: option.splits)

lemma parent_ok_append: "parent_ok nodes n \<Longrightarrow> parent_ok (nodes @ [row]) n"
  by (auto simp: parent_ok_def split: option.splits)

lemma append_well_formed:
  assumes wf: "well_formed nodes" and fresh: "nid row \<notin> nid ` set nodes"
    and p: "parent_ok nodes row"
  shows "well_formed (nodes @ [row])"
proof -
  from wf have d: "distinct (map nid nodes)" and a: "acyclic (parent_rel nodes)"
    and c: "list_all (parent_ok nodes) nodes" by (simp_all add: well_formed_iff)
  have d': "distinct (map nid (nodes @ [row]))" using d fresh by simp
  have "acyclic (case parent_id row of None \<Rightarrow> parent_rel nodes
                 | Some p \<Rightarrow> insert (nid row, p) (parent_rel nodes))"
  proof (cases "parent_id row")
    case None
    with a show ?thesis by simp
  next
    case (Some q)
    with p have qin: "q \<in> nid ` set nodes" by (auto simp: parent_ok_def list_ex_iff)
    have "(q, nid row) \<notin> (parent_rel nodes)\<^sup>*"
    proof
      assume "(q, nid row) \<in> (parent_rel nodes)\<^sup>*"
      then have "q = nid row \<or> (q, nid row) \<in> (parent_rel nodes)\<^sup>+"
        by (auto simp: rtrancl_eq_or_trancl)
      then show False
      proof
        assume "q = nid row"
        with qin fresh show False by simp
      next
        assume "(q, nid row) \<in> (parent_rel nodes)\<^sup>+"
        with c have "nid row \<in> nid ` set nodes" by (rule ancestors_closed)
        with fresh show False by simp
      qed
    qed
    with a Some show ?thesis by (simp add: acyclic_insert)
  qed
  then have a': "acyclic (parent_rel (nodes @ [row]))"
    using parent_rel_append by (rule acyclic_subset)
  have c': "list_all (parent_ok (nodes @ [row])) (nodes @ [row])"
    using c p by (auto simp: list_all_iff intro: parent_ok_append)
  from d' a' c' show ?thesis by (simp add: well_formed_iff)
qed

lemma createFolder_preserves:
  assumes wf: "well_formed nodes"
    and ad: "admissible nodes (CreateFolder fault new_id now userId nm parent)"
  shows "well_formed (snd (createFolder fault new_id now userId nm parent nodes))"
proof (cases "truthy userId \<and> truthy nm \<and> trim (the nm) \<noteq> [] \<and> \<not> fault 1
               \<and> new_id \<notin> nid ` set nodes")
  case False
  then have "snd (createFolder fault new_id now userId nm parent nodes) = nodes"
    by (auto simp: createFolder_def insert_node_def Let_def)
  with wf show ?thesis by simp
next
  case True
  then obtain u where u: "userId = Some u" by (cases userId) auto
  let ?row = "\<lparr> nid = new_id, owner_id = u, ntype = ''folder'',
                 name = trim (the nm), parent_id = or_else parent None,
                 size_bytes = None, mime_type = None, path = None,
                 created_at = now, updated_at = now,
                 deleted_at = None, shared_with = None \<rparr>"
  from True u have st: "snd (createFolder fault new_id now userId nm parent nodes) = nodes @ [?row]"
    by (simp add: createFolder_def insert_node_def Let_def)
  have "parent_ok nodes ?row"
    using ad u by (simp add: parent_ok_def split: option.splits)
  with wf True have "well_formed (nodes @ [?row])"
    by (intro append_well_formed) simp_all
  with st show ?thesis by simp
qed

lemma well_formed_empty: "well_formed []"
  by (simp add: well_formed_def rooted_def)

lemma perform_preserves:
  "well_formed nodes \<Longrightarrow> admissible nodes r \<Longrightarrow> well_formed (perform r nodes)"
proof (cases r)
  case (CreateFolder fault new_id now userId nm parent)
  assume "well_formed nodes" and "admissible nodes r"
  with CreateFolder show ?thesis by (simp only: perform.simps createFolder_preserves)
next
  case (MoveFolder fault now userId i target)
  assume "well_formed nodes" and "admissible nodes r"
  with MoveFolder show ?thesis by (simp add: moveFolder_preserves)
next
  case (MoveFile fault now userId i target)
  assume "well_formed nodes" and "admissible nodes r"
  with MoveFile show ?thesis by (simp add: moveFile_preserves)
qed

lemma run_well_formed:
  "well_formed nodes \<Longrightarrow> all_admissible nodes rs \<Longrightarrow> well_formed (run rs nodes)"
proof (induction rs arbitrary: nodes)
  case Nil
  then show ?case by simp
next
  case (Cons r rs)
  from Cons.prems have "well_formed (perform r nodes)" and "all_admissible (perform r nodes) rs"
    by (simp_all add: perform_preserves)
  with Cons.IH show ?case by simp
qed

text \<open>
  Claim C2, amended. In a well-formed table (unique ids, every parent chain arriving at
  the null root within as many steps as there are nodes, every parent reference naming
  an existing folder of the same owner), let the actor \<open>u\<close> own the folders \<open>folder\<close> and
  \<open>tn\<close>, and let the repository answer the two lookups and the listing of the actor's
  nodes. If \<open>tn\<close> is \<open>folder\<close> itself or a descendant of it, \<open>moveFolder\<close> fails with
  \<open>INVALID_MOVE\<close> and the table is as before. Consequently, after any run of
  \<open>moveFolder\<close> requests that get their listing, of \<open>moveFile\<close> requests, and of
  \<open>createFolder\<close> requests whose parent is null or an existing folder of the creator,
  the table is well formed again: the parent chain of every node arrives at the null
  root within as many steps as there are nodes.
\<close>

theorem moveFolder_cycle_guard:
  assumes wf: "well_formed nodes"
  shows "(\<forall>fault now u folder tn.
            folder \<in> set nodes \<and> ntype folder = ''folder'' \<and> owner_id folder = u
            \<and> tn \<in> set nodes \<and> ntype tn = ''folder'' \<and> owner_id tn = u
            \<and> u \<noteq> [] \<and> nid tn \<noteq> [] \<and> \<not> fault 1 \<and> \<not> fault 2 \<and> \<not> fault 3
            \<and> (nid tn = nid folder \<or> descendant nodes (nid tn) (nid folder))
            \<longrightarrow> moveFolder fault now (Some u) (nid folder) (Some (nid tn)) nodes
                  = (Inl (400, INVALID_MOVE), nodes))
       \<and> (\<forall>rs. all_admissible nodes rs \<longrightarrow>
                 well_formed (run rs nodes) \<and> rooted (run rs nodes))"
proof (intro conjI allI impI)
  fix fault :: "nat \<Rightarrow> bool" and now u folder tn
  assume "folder \<in> set nodes \<and> ntype folder = ''folder'' \<and> owner_id folder = u
            \<and> tn \<in> set nodes \<and> ntype tn = ''folder'' \<and> owner_id tn = u
            \<and> u \<noteq> [] \<and> nid tn \<noteq> [] \<and> \<not> fault 1 \<and> \<not> fault 2 \<and> \<not> fault 3
            \<and> (nid tn = nid folder \<or> descendant nodes (nid tn) (nid folder))"
  with wf show "moveFolder fault now (Some u) (nid folder) (Some (nid tn)) nodes
                  = (Inl (400, INVALID_MOVE), nodes)"
    by (intro moveFolder_rejects) simp_all
next
  fix rs assume "all_admissible nodes rs"
  with wf show "well_formed (run rs nodes)" by (rule run_well_formed)
  then show "rooted (run rs nodes)" by (simp add: well_formed_def)
qed


lemma crossing_drive:
  "run crossing_requests [] =
     [(mk_node ''1'' ''u'' ''folder'' ''top'' None) \<lparr> created_at := 1, updated_at := 1 \<rparr>,
      (mk_node ''2'' ''v'' ''folder'' ''mid'' (Some ''1'')) \<lparr> created_at := 2, updated_at := 2 \<rparr>,
      (mk_node ''3'' ''u'' ''folder'' ''low'' (Some ''2'')) \<lparr> created_at := 3, updated_at := 3 \<rparr>]"
  by (simp add: crossing_requests_def createFolder_def insert_node_def no_fault_def
      mk_node_def or_else_def trim_def is_space_def Let_def)

text \<open>
  Claim C2, as stated, fails when the chain between the two folders passes through a
  node of another account. Three \<open>createFolder\<close> requests, none of which checks its
  parent, build the chain \<open>3 \<rightarrow> 2 \<rightarrow> 1\<close> in which \<open>1\<close> and \<open>3\<close> belong to \<open>u\<close> and \<open>2\<close> to
  \<open>v\<close>. The table has unique ids and every chain arrives at the root, and \<open>3\<close> is a
  descendant of \<open>1\<close>; yet \<open>moveFolder\<close> of \<open>1\<close> into \<open>3\<close> succeeds, because the cycle check
  walks the actor's own nodes only, and after it the chains of all three nodes run in
  a circle.
\<close>

theorem moveFolder_cross_owner_counterexample:
  "distinct (map nid (run crossing_requests []))
   \<and> rooted (run crossing_requests [])
   \<and> descendant (run crossing_requests []) ''3'' ''1''
   \<and> failure_of (fst (moveFolder no_fault 4 (Some ''u'') ''1'' (Some ''3'')
                         (run crossing_requests []))) = None
   \<and> \<not> rooted (run (crossing_requests @ [MoveFolder no_fault 4 (Some ''u'') ''1'' (Some ''3'')]) [])"
proof -
  let ?db = "run crossing_requests []"
  have 1: "distinct (map nid ?db)" by (simp add: crossing_drive mk_node_def)
  have 2: "rooted ?db" by (simp add: crossing_drive mk_node_def rooted_def)
  have "(''3'', ''2'') \<in> parent_rel ?db" "(''2'', ''1'') \<in> parent_rel ?db"
    by (simp_all add: parent_rel_iff crossing_drive mk_node_def)
  then have 3: "descendant ?db ''3'' ''1''"
    unfolding descendant_def by (meson trancl.intros)
  have 4: "failure_of (fst (moveFolder no_fault 4 (Some ''u'') ''1'' (Some ''3'') ?db)) = None"
    by (simp add: crossing_drive mk_node_def moveFolder_def node_by_id_def no_fault_def
        set_parent_def failure_of_def Let_def)
  have run_app: "run (xs @ ys) s = run ys (run xs s)" for xs ys s
    by (induction xs arbitrary: s) simp_all
  have 5: "\<not> rooted (run (crossing_requests @ [MoveFolder no_fault 4 (Some ''u'') ''1'' (Some ''3'')]) [])"
    by (simp add: run_app crossing_drive mk_node_def moveFolder_def node_by_id_def no_fault_def
        set_parent_def rooted_def Let_def)
  from 1 2 3 4 5 show ?thesis by blast
qed

lemma nested_drive_well_formed: "well_formed nested_drive"
  by (simp add: well_formed_def rooted_def parent_ok_def nested_drive_def mk_node_def)

theorem moveFolder_cycle_guard_witness:
  "moveFolder no_fault 9 (Some ''u'') ''F'' (Some ''A'') nested_drive
     = (Inl (400, INVALID_MOVE), nested_drive)
   \<and> moveFolder no_fault 9 (Some ''u'') ''F'' (Some ''F'') nested_drive
     = (Inl (400, INVALID_MOVE), nested_drive)
   \<and> rooted (run tidy_requests nested_drive)"
proof -
  note g = moveFolder_cycle_guard [OF nested_drive_well_formed]
  let ?F = "mk_node ''F'' ''u'' ''folder'' ''top'' None"
  let ?A = "mk_node ''A'' ''u'' ''folder'' ''sub'' (Some ''F'')"
  have "(''A'', ''F'') \<in> parent_rel nested_drive"
    by (simp add: parent_rel_iff nested_drive_def mk_node_def)
  then have below: "descendant nested_drive ''A'' ''F''"
    by (simp add: descendant_def r_into_trancl')
  have h1: "?F \<in> set nested_drive \<and> ntype ?F = ''folder'' \<and> owner_id ?F = ''u''
            \<and> ?A \<in> set nested_drive \<and> ntype ?A = ''folder'' \<and> owner_id ?A = ''u''
            \<and> ''u'' \<noteq> [] \<and> nid ?A \<noteq> [] \<and> \<not> no_fault 1 \<and> \<not> no_fault 2 \<and> \<not> no_fault 3
            \<and> (nid ?A = nid ?F \<or> descendant nested_drive (nid ?A) (nid ?F))"
    using below by (simp add: nested_drive_def mk_node_def no_fault_def)
  have h2: "?F \<in> set nested_drive \<and> ntype ?F = ''folder'' \<and> owner_id ?F = ''u''
            \<and> ?F \<in> set nested_drive \<and> ntype ?F = ''folder'' \<and> owner_id ?F = ''u''
            \<and> ''u'' \<noteq> [] \<and> nid ?F \<noteq> [] \<and> \<not> no_fault 1 \<and> \<not> no_fault 2 \<and> \<not> no_fault 3
            \<and> (nid ?F = nid ?F \<or> descendant nested_drive (nid ?F) (nid ?F))"
    by (simp add: nested_drive_def mk_node_def no_fault_def)
  have adm: "all_admissible nested_drive tidy_requests"
    by (simp add: tidy_requests_def nested_drive_def mk_node_def createFolder_def
        insert_node_def no_fault_def or_else_def trim_def is_space_def Let_def)
  from g [THEN conjunct1, THEN spec, THEN spec, THEN spec, THEN spec, THEN spec, THEN mp, OF h1, of 9]
    g [THEN conjunct1, THEN spec, THEN spec, THEN spec, THEN spec, THEN spec, THEN mp, OF h2, of 9]
    g [THEN conjunct2, THEN spec, THEN mp, OF adm]
  show ?thesis by (simp add: mk_node_def)
qed

end
